theory Spec2Isabelle
  imports
    Main
    "HOL-Library.AList"
    "HOL-Library.Sublist"
    "HOL-Library.List_Lexorder"
    "HOL-Library.Char_ord"
    "HOL-Library.Multiset"
begin

section \<open>The migration module of kysely (src/migration/migration.ts)\<close>

text \<open>
  The class \<^verbatim>\<open>MigrationModule\<close> is embedded as a family of functions over an explicit
  world. The world holds what the claims talk about: the rows of the ledger table
  \<^verbatim>\<open>kysely_migration\<close>, the part of the database the migrations themselves act on, and
  the history of calls made to collaborators. Every collaborator that can fail (the dialect
  adapter, the introspection and query layer, the file system) is a field of an environment
  record; a field that is consulted repeatedly answers as a function of the history so far, so
  a universally quantified environment covers every pattern of failures.

  A JavaScript \<^verbatim>\<open>throw\<close> is a left injection. Two kinds of thrown values are told apart by
  \<^verbatim>\<open>#migrate\<close>: the module-private \<^verbatim>\<open>MigrationResultSetError\<close>, and everything else.
\<close>

subsection \<open>Data\<close>

datatype exn =
    TypeError
  | MigrationDoesNotExist string
  | CorruptedMissing string
  | CorruptedOrder string nat string
  | UniqueViolation string
  | Foreign string

datatype direction = Up | Down

datatype status = Success | Error | NotExecuted

record MigrationResult =
  migrationName :: string
  direction :: direction
  status :: status

record MigrationResultSet =
  error :: "exn option"
  results :: "MigrationResult list option"

datatype thrown = Plain exn | MigrationResultSetError MigrationResultSet

text \<open>
  A migration action receives the database handle and completes or throws; it may have changed
  the database before throwing. Actions act on the user part of the world only.
\<close>

type_synonym 'u action = "'u \<Rightarrow> exn option \<times> 'u"

text \<open>
  The interface \<^verbatim>\<open>Migration\<close> declares \<^verbatim>\<open>up\<close> and an optional \<^verbatim>\<open>down\<close>. At run time either
  property can be absent from an object, whatever the interface says, so both fields are
  optional: \<^const>\<open>None\<close> is a property that is not there (or not a function).
\<close>

record 'u Migration =
  up :: "'u action option"
  down :: "'u action option"

record 'u NamedMigration = "'u Migration" +
  name :: string

text \<open>
  A JavaScript object as far as the module looks at it: the enumerable properties it holds
  itself, and those found along its prototype chain (the methods of a class instance). A
  property access \<^verbatim>\<open>obj.up\<close> finds either; an object spread \<^verbatim>\<open>{...obj}\<close> copies the own ones
  only.
\<close>

datatype 'u object = Object (own: "'u Migration") (inherited: "'u Migration")

definition getUp :: "'u object \<Rightarrow> 'u action option" where
  "getUp obj = (case up (own obj) of Some f \<Rightarrow> Some f | None \<Rightarrow> up (inherited obj))"

record 'u MigrationState =
  migrations :: "'u NamedMigration list"
  currentIndex :: int

datatype targetMigrationName = NO_MIGRATIONS | Name string

text \<open>
  \<^verbatim>\<open>Record<string, Migration> | string\<close>. A JavaScript object is an association list read
  through \<^const>\<open>map_of\<close>; its keys are the distinct first components.
\<close>

datatype 'u MigrationsOrFolderPath =
    FolderPath string
  | AllMigrations "(string \<times> 'u object) list"

text \<open>The handle \<^verbatim>\<open>run\<close> is called with: a transaction or a reserved connection.\<close>

datatype ctx = Transaction | Connection

datatype event =
    GetMetadata
  | CreateTable string
  | SelectLockRow
  | InsertLockRow
  | Begin ctx
  | Commit
  | Rollback
  | AcquireLock ctx
  | ReleaseLock ctx
  | SelectLedger
  | GetTarget
  | CallUp string
  | CallDown string
  | InsertLedger string
  | DeleteLedger string

record 'u world =
  ledger :: "(string \<times> string) list"
  user :: 'u
  trace :: "event list"

record 'u env =
  supportsTransactionalDdl :: bool
  acquireMigrationLock :: "event list \<Rightarrow> exn option"
  releaseMigrationLock :: "event list \<Rightarrow> exn option"
  getMetadata :: "event list \<Rightarrow> exn + string list"
  createTable :: "string \<Rightarrow> event list \<Rightarrow> exn option"
  selectLockRow :: "event list \<Rightarrow> exn + bool"
  insertLockRow :: "event list \<Rightarrow> exn option"
  selectFails :: "event list \<Rightarrow> exn option"
  insertFails :: "event list \<Rightarrow> exn option"
  deleteFails :: "event list \<Rightarrow> exn option"
  beginFails :: "event list \<Rightarrow> exn option"
  commitFails :: "event list \<Rightarrow> exn option"
  readdir :: "string \<Rightarrow> exn + string list"
  importModule :: "string \<Rightarrow> exn + 'u object"
  now :: "event list \<Rightarrow> string"
  collation :: "string \<Rightarrow> string"

definition MIGRATION_TABLE :: string where
  "MIGRATION_TABLE = ''kysely_migration''"

definition MIGRATION_LOCK_TABLE :: string where
  "MIGRATION_LOCK_TABLE = ''kysely_migration_lock''"

definition MIGRATION_LOCK_ID :: string where
  "MIGRATION_LOCK_ID = ''migration_lock''"

definition emit :: "event \<Rightarrow> 'u world \<Rightarrow> 'u world" where
  "emit e w = w\<lparr>trace := trace w @ [e]\<rparr>"

subsection \<open>Bootstrap of the ledger and lock tables\<close>

definition doesTableExists ::
  "'u env \<Rightarrow> string \<Rightarrow> 'u world \<Rightarrow> (exn + bool) \<times> 'u world" where
  "doesTableExists env tableName w =
     (case getMetadata env (trace w) of
        Inl e \<Rightarrow> (Inl e, emit GetMetadata w)
      | Inr tables \<Rightarrow> (Inr (tableName \<in> set tables), emit GetMetadata w))"

definition doesLockRowExists :: "'u env \<Rightarrow> 'u world \<Rightarrow> (exn + bool) \<times> 'u world" where
  "doesLockRowExists env w =
     (case selectLockRow env (trace w) of
        Inl e \<Rightarrow> (Inl e, emit SelectLockRow w)
      | Inr lockRow \<Rightarrow> (Inr lockRow, emit SelectLockRow w))"

definition ensureMigrationTableExists :: "'u env \<Rightarrow> 'u world \<Rightarrow> exn option \<times> 'u world" where
  "ensureMigrationTableExists env w =
     (case doesTableExists env MIGRATION_TABLE w of
        (Inl e, w1) \<Rightarrow> (Some e, w1)
      | (Inr True, w1) \<Rightarrow> (None, w1)
      | (Inr False, w1) \<Rightarrow>
          (case createTable env MIGRATION_TABLE (trace w1) of
             None \<Rightarrow> (None, emit (CreateTable MIGRATION_TABLE) w1)
           | Some err \<Rightarrow>
               (case doesTableExists env MIGRATION_TABLE (emit (CreateTable MIGRATION_TABLE) w1) of
                  (Inl e, w2) \<Rightarrow> (Some e, w2)
                | (Inr True, w2) \<Rightarrow> (None, w2)
                | (Inr False, w2) \<Rightarrow> (Some err, w2))))"

definition ensureMigrationLockTableExists ::
  "'u env \<Rightarrow> 'u world \<Rightarrow> exn option \<times> 'u world" where
  "ensureMigrationLockTableExists env w =
     (case doesTableExists env MIGRATION_LOCK_TABLE w of
        (Inl e, w1) \<Rightarrow> (Some e, w1)
      | (Inr True, w1) \<Rightarrow> (None, w1)
      | (Inr False, w1) \<Rightarrow>
          (case createTable env MIGRATION_LOCK_TABLE (trace w1) of
             None \<Rightarrow> (None, emit (CreateTable MIGRATION_LOCK_TABLE) w1)
           | Some err \<Rightarrow>
               (case doesTableExists env MIGRATION_LOCK_TABLE
                       (emit (CreateTable MIGRATION_LOCK_TABLE) w1) of
                  (Inl e, w2) \<Rightarrow> (Some e, w2)
                | (Inr True, w2) \<Rightarrow> (None, w2)
                | (Inr False, w2) \<Rightarrow> (Some err, w2))))"

definition ensureLockRowExists :: "'u env \<Rightarrow> 'u world \<Rightarrow> exn option \<times> 'u world" where
  "ensureLockRowExists env w =
     (case doesLockRowExists env w of
        (Inl e, w1) \<Rightarrow> (Some e, w1)
      | (Inr True, w1) \<Rightarrow> (None, w1)
      | (Inr False, w1) \<Rightarrow>
          (case insertLockRow env (trace w1) of
             None \<Rightarrow> (None, emit InsertLockRow w1)
           | Some err \<Rightarrow>
               (case doesLockRowExists env (emit InsertLockRow w1) of
                  (Inl e, w2) \<Rightarrow> (Some e, w2)
                | (Inr True, w2) \<Rightarrow> (None, w2)
                | (Inr False, w2) \<Rightarrow> (Some err, w2))))"

definition ensureMigrationTablesExists ::
  "'u env \<Rightarrow> 'u world \<Rightarrow> exn option \<times> 'u world" where
  "ensureMigrationTablesExists env w =
     (case ensureMigrationTableExists env w of
        (Some e, w1) \<Rightarrow> (Some e, w1)
      | (None, w1) \<Rightarrow>
          (case ensureMigrationLockTableExists env w1 of
             (Some e, w2) \<Rightarrow> (Some e, w2)
           | (None, w2) \<Rightarrow> ensureLockRowExists env w2))"

subsection \<open>Migration source\<close>

definition endsWith :: "string \<Rightarrow> string \<Rightarrow> bool" where
  "endsWith s suf \<longleftrightarrow> length suf \<le> length s \<and> drop (length s - length suf) s = suf"

text \<open>\<^verbatim>\<open>isObject(obj) && isFunction(obj.up)\<close>: a property access, own or inherited.\<close>

definition isMigration :: "'u object \<Rightarrow> bool" where
  "isMigration obj \<longleftrightarrow> getUp obj \<noteq> None"

fun readFiles ::
  "'u env \<Rightarrow> string \<Rightarrow> string list \<Rightarrow> (string \<times> 'u object) list
     \<Rightarrow> exn + (string \<times> 'u object) list" where
  "readFiles env migrationsFolderPath [] acc = Inr acc"
| "readFiles env migrationsFolderPath (file # files) acc =
     (if (endsWith file ''.js'' \<or> endsWith file ''.ts'') \<and> \<not> endsWith file ''.d.ts'' then
        (case importModule env (migrationsFolderPath @ ''/'' @ file) of
           Inl e \<Rightarrow> Inl e
         | Inr migration \<Rightarrow>
             (if isMigration migration then
                readFiles env migrationsFolderPath files
                  (AList.update (take (length file - 3) file) migration acc)
              else readFiles env migrationsFolderPath files acc))
      else readFiles env migrationsFolderPath files acc)"

definition readMigrationsFromFolder ::
  "'u env \<Rightarrow> string \<Rightarrow> exn + (string \<times> 'u object) list" where
  "readMigrationsFromFolder env migrationsFolderPath =
     (case readdir env migrationsFolderPath of
        Inl e \<Rightarrow> Inl e
      | Inr files \<Rightarrow> readFiles env migrationsFolderPath files [])"

text \<open>
  \<^verbatim>\<open>{...allMigrations[name], name}\<close>. The spread copies the own enumerable properties of the
  object and nothing from its prototype chain, so an \<^verbatim>\<open>up\<close> or \<^verbatim>\<open>down\<close> that is a method of
  a class is absent from the result. Spreading \<^verbatim>\<open>undefined\<close> gives an object with the name
  alone; the keys come from the object itself, so this branch is never taken by
  \<open>resolveMigrations\<close>.
\<close>

definition named :: "(string \<times> 'u object) list \<Rightarrow> string \<Rightarrow> 'u NamedMigration" where
  "named allMigrations n =
     (case map_of allMigrations n of
        Some obj \<Rightarrow> \<lparr>up = up (own obj), down = down (own obj), name = n\<rparr>
      | None \<Rightarrow> \<lparr>up = None, down = None, name = n\<rparr>)"

definition resolveMigrations ::
  "'u env \<Rightarrow> 'u MigrationsOrFolderPath \<Rightarrow> exn + 'u NamedMigration list" where
  "resolveMigrations env migrationsOrFolderPath =
     (case (case migrationsOrFolderPath of
              FolderPath p \<Rightarrow> readMigrationsFromFolder env p
            | AllMigrations ms \<Rightarrow> Inr ms) of
        Inl e \<Rightarrow> Inl e
      | Inr allMigrations \<Rightarrow>
          Inr (map (named allMigrations) (sort (remdups (map fst allMigrations)))))"

subsection \<open>Planner\<close>

text \<open>
  \<^verbatim>\<open>select name from kysely_migration order by name\<close>. The order is the database's, under
  the collation of the column, and need not be the order of \<^verbatim>\<open>Array.prototype.sort\<close> used by
  \<open>resolveMigrations\<close>: \<open>collation env\<close> maps a name to the key the database compares.
\<close>

definition getExecutedMigrations ::
  "'u env \<Rightarrow> 'u world \<Rightarrow> (exn + string list) \<times> 'u world" where
  "getExecutedMigrations env w =
     (case selectFails env (trace w) of
        Some e \<Rightarrow> (Inl e, emit SelectLedger w)
      | None \<Rightarrow> (Inr (sort_key (collation env) (map fst (ledger w))), emit SelectLedger w))"

fun checkMissing :: "'u NamedMigration list \<Rightarrow> string list \<Rightarrow> exn option" where
  "checkMissing ms [] = None"
| "checkMissing ms (executed # rest) =
     (if \<not> list_ex (\<lambda>it. name it = executed) ms then Some (CorruptedMissing executed)
      else checkMissing ms rest)"

function checkOrder :: "'u NamedMigration list \<Rightarrow> string list \<Rightarrow> nat \<Rightarrow> exn option" where
  "checkOrder ms executedMigrations i =
     (if i < length executedMigrations then
        (if i < length ms then
           (if name (ms ! i) \<noteq> executedMigrations ! i then
              Some (CorruptedOrder (executedMigrations ! i) i (name (ms ! i)))
            else checkOrder ms executedMigrations (i + 1))
         else Some TypeError)
      else None)"
  by pat_completeness auto
termination
  by (relation "measure (\<lambda>(ms, ex, i). length ex - i)") auto

declare checkOrder.simps [simp del]

definition ensureMigrationsNotCorrupted ::
  "'u NamedMigration list \<Rightarrow> string list \<Rightarrow> exn option" where
  "ensureMigrationsNotCorrupted ms executedMigrations =
     (case checkMissing ms executedMigrations of
        Some e \<Rightarrow> Some e
      | None \<Rightarrow> checkOrder ms executedMigrations 0)"

text \<open>
  Modelled from the spec: \<^verbatim>\<open>getLast\<close> of \<^verbatim>\<open>util/object-utils\<close> is not part of the
  sources at hand. The current index is the position of the last executed migration and
  \<open>-1\<close> when nothing was executed, so \<^verbatim>\<open>getLast\<close> yields the last element of the
  array and \<^verbatim>\<open>undefined\<close> (here \<^const>\<open>None\<close>) on an empty one.
\<close>

definition getLast :: "'a list \<Rightarrow> 'a option" where
  "getLast xs = (if xs = [] then None else Some (last xs))"

fun findIndex :: "('a \<Rightarrow> bool) \<Rightarrow> 'a list \<Rightarrow> int" where
  "findIndex P [] = - 1"
| "findIndex P (x # xs) =
     (if P x then 0 else (let i = findIndex P xs in if i = - 1 then - 1 else i + 1))"

definition getState ::
  "'u env \<Rightarrow> 'u MigrationsOrFolderPath \<Rightarrow> 'u world \<Rightarrow> (exn + 'u MigrationState) \<times> 'u world"
  where
  "getState env migrationsOrFolderPath w =
     (case resolveMigrations env migrationsOrFolderPath of
        Inl e \<Rightarrow> (Inl e, w)
      | Inr ms \<Rightarrow>
          (case getExecutedMigrations env w of
             (Inl e, w1) \<Rightarrow> (Inl e, w1)
           | (Inr executedMigrations, w1) \<Rightarrow>
               (case ensureMigrationsNotCorrupted ms executedMigrations of
                  Some e \<Rightarrow> (Inl e, w1)
                | None \<Rightarrow>
                    (Inr \<lparr>migrations = ms,
                          currentIndex =
                            findIndex (\<lambda>it. Some (name it) = getLast executedMigrations) ms\<rparr>,
                     w1))))"

subsection \<open>Ledger queries\<close>

text \<open>
  \<^verbatim>\<open>name\<close> is the primary key of the ledger table, so inserting a name twice is refused by
  the database.
\<close>

definition insertInto :: "'u env \<Rightarrow> string \<Rightarrow> 'u world \<Rightarrow> exn option \<times> 'u world" where
  "insertInto env n w =
     (case insertFails env (trace w) of
        Some e \<Rightarrow> (Some e, emit (InsertLedger n) w)
      | None \<Rightarrow>
          (if n \<in> set (map fst (ledger w)) then (Some (UniqueViolation n), emit (InsertLedger n) w)
           else (None, emit (InsertLedger n) (w\<lparr>ledger := ledger w @ [(n, now env (trace w))]\<rparr>))))"

definition deleteFrom :: "'u env \<Rightarrow> string \<Rightarrow> 'u world \<Rightarrow> exn option \<times> 'u world" where
  "deleteFrom env n w =
     (case deleteFails env (trace w) of
        Some e \<Rightarrow> (Some e, emit (DeleteLedger n) w)
      | None \<Rightarrow>
          (None, emit (DeleteLedger n) (w\<lparr>ledger := filter (\<lambda>r. fst r \<noteq> n) (ledger w)\<rparr>)))"

subsection \<open>Executor\<close>

definition nthMigration :: "'u NamedMigration list \<Rightarrow> int \<Rightarrow> 'u NamedMigration option" where
  "nthMigration ms i = (if 0 \<le> i \<and> i < int (length ms) then Some (ms ! nat i) else None)"

function planDown ::
  "'u NamedMigration list \<Rightarrow> int \<Rightarrow> int \<Rightarrow> MigrationResult list \<Rightarrow> exn + MigrationResult list"
  where
  "planDown ms i targetIndex rs =
     (if i > targetIndex then
        (case nthMigration ms i of
           None \<Rightarrow> Inl TypeError
         | Some m \<Rightarrow>
             planDown ms (i - 1) targetIndex
               (rs @ [\<lparr>migrationName = name m, direction = Down, status = NotExecuted\<rparr>]))
      else Inr rs)"
  by pat_completeness auto
termination
  by (relation "measure (\<lambda>(ms, i, targetIndex, rs). nat (i - targetIndex))") auto

declare planDown.simps [simp del]

function planUp ::
  "'u NamedMigration list \<Rightarrow> int \<Rightarrow> int \<Rightarrow> MigrationResult list \<Rightarrow> exn + MigrationResult list"
  where
  "planUp ms i targetIndex rs =
     (if i \<le> targetIndex then
        (case nthMigration ms i of
           None \<Rightarrow> Inl TypeError
         | Some m \<Rightarrow>
             planUp ms (i + 1) targetIndex
               (rs @ [\<lparr>migrationName = name m, direction = Up, status = NotExecuted\<rparr>]))
      else Inr rs)"
  by pat_completeness auto
termination
  by (relation "measure (\<lambda>(ms, i, targetIndex, rs). nat (targetIndex + 1 - i))") auto

declare planUp.simps [simp del]

definition stepFailed ::
  "exn \<Rightarrow> MigrationResult list \<Rightarrow> nat \<Rightarrow> string \<Rightarrow> direction \<Rightarrow> thrown" where
  "stepFailed e rs i n d =
     MigrationResultSetError
       \<lparr>error = Some e,
        results = Some (rs[i := \<lparr>migrationName = n, direction = d, status = Error\<rparr>])\<rparr>"

function execDown ::
  "'u env \<Rightarrow> 'u MigrationState \<Rightarrow> nat \<Rightarrow> MigrationResult list \<Rightarrow> 'u world
     \<Rightarrow> (thrown + MigrationResult list) \<times> 'u world" where
  "execDown env state i rs w =
     (if i < length rs then
        (case find (\<lambda>it. name it = migrationName (rs ! i)) (migrations state) of
           None \<Rightarrow> (Inl (Plain TypeError), w)
         | Some migration \<Rightarrow>
             (case down migration of
                None \<Rightarrow> execDown env state (i + 1) rs w
              | Some f \<Rightarrow>
                  (case f (user w) of
                     (Some e, u1) \<Rightarrow>
                       (Inl (stepFailed e rs i (name migration) Down),
                        emit (CallDown (name migration)) (w\<lparr>user := u1\<rparr>))
                   | (None, u1) \<Rightarrow>
                       (case deleteFrom env (name migration)
                               (emit (CallDown (name migration)) (w\<lparr>user := u1\<rparr>)) of
                          (Some e, w2) \<Rightarrow> (Inl (stepFailed e rs i (name migration) Down), w2)
                        | (None, w2) \<Rightarrow>
                            execDown env state (i + 1)
                              (rs[i := \<lparr>migrationName = name migration, direction = Down,
                                        status = Success\<rparr>]) w2))))
      else (Inr rs, w))"
  by pat_completeness auto
termination
  by (relation "measure (\<lambda>(env, state, i, rs, w). length rs - i)") auto

declare execDown.simps [simp del]

definition migrateDown_private ::
  "'u env \<Rightarrow> 'u MigrationState \<Rightarrow> int \<Rightarrow> 'u world
     \<Rightarrow> (thrown + MigrationResultSet) \<times> 'u world" where
  "migrateDown_private env state targetIndex w =
     (case planDown (migrations state) (currentIndex state) targetIndex [] of
        Inl e \<Rightarrow> (Inl (Plain e), w)
      | Inr rs \<Rightarrow>
          (case execDown env state 0 rs w of
             (Inl t, w1) \<Rightarrow> (Inl t, w1)
           | (Inr rs', w1) \<Rightarrow> (Inr \<lparr>error = None, results = Some rs'\<rparr>, w1)))"

function execUp ::
  "'u env \<Rightarrow> 'u MigrationState \<Rightarrow> nat \<Rightarrow> MigrationResult list \<Rightarrow> 'u world
     \<Rightarrow> (thrown + MigrationResult list) \<times> 'u world" where
  "execUp env state i rs w =
     (if i < length rs then
        (case find (\<lambda>it. name it = migrationName (rs ! i)) (migrations state) of
           None \<Rightarrow> (Inl (Plain TypeError), w)
         | Some migration \<Rightarrow>
             (case up migration of
                None \<Rightarrow> (Inl (stepFailed TypeError rs i (name migration) Up), w)
              | Some f \<Rightarrow>
                  (case f (user w) of
                     (Some e, u1) \<Rightarrow>
                       (Inl (stepFailed e rs i (name migration) Up),
                        emit (CallUp (name migration)) (w\<lparr>user := u1\<rparr>))
                   | (None, u1) \<Rightarrow>
                       (case insertInto env (name migration)
                               (emit (CallUp (name migration)) (w\<lparr>user := u1\<rparr>)) of
                          (Some e, w2) \<Rightarrow> (Inl (stepFailed e rs i (name migration) Up), w2)
                        | (None, w2) \<Rightarrow>
                            execUp env state (i + 1)
                              (rs[i := \<lparr>migrationName = name migration, direction = Up,
                                        status = Success\<rparr>]) w2))))
      else (Inr rs, w))"
  by pat_completeness auto
termination
  by (relation "measure (\<lambda>(env, state, i, rs, w). length rs - i)") auto

declare execUp.simps [simp del]

definition migrateUp_private ::
  "'u env \<Rightarrow> 'u MigrationState \<Rightarrow> int \<Rightarrow> 'u world
     \<Rightarrow> (thrown + MigrationResultSet) \<times> 'u world" where
  "migrateUp_private env state targetIndex w =
     (case planUp (migrations state) (currentIndex state + 1) targetIndex [] of
        Inl e \<Rightarrow> (Inl (Plain e), w)
      | Inr rs \<Rightarrow>
          (case execUp env state 0 rs w of
             (Inl t, w1) \<Rightarrow> (Inl t, w1)
           | (Inr rs', w1) \<Rightarrow> (Inr \<lparr>error = None, results = Some rs'\<rparr>, w1)))"

subsection \<open>The locked scope and the execution context\<close>

type_synonym 'u getTargetMigration = "'u MigrationState \<Rightarrow> exn + int option"

definition noResults :: MigrationResultSet where
  "noResults = \<lparr>error = None, results = Some []\<rparr>"

text \<open>The \<^verbatim>\<open>try\<close> block of \<^verbatim>\<open>run\<close>.\<close>

definition run_try ::
  "'u env \<Rightarrow> 'u MigrationsOrFolderPath \<Rightarrow> 'u getTargetMigration \<Rightarrow> ctx \<Rightarrow> 'u world
     \<Rightarrow> (thrown + MigrationResultSet) \<times> 'u world" where
  "run_try env migrationsOrFolderPath getTarget db w =
     (case acquireMigrationLock env (trace w) of
        Some e \<Rightarrow> (Inl (Plain e), emit (AcquireLock db) w)
      | None \<Rightarrow>
          (case getState env migrationsOrFolderPath (emit (AcquireLock db) w) of
             (Inl e, w1) \<Rightarrow> (Inl (Plain e), w1)
           | (Inr state, w1) \<Rightarrow>
               (if length (migrations state) = 0 then (Inr noResults, w1)
                else
                  (case getTarget state of
                     Inl e \<Rightarrow> (Inl (Plain e), emit GetTarget w1)
                   | Inr None \<Rightarrow> (Inr noResults, emit GetTarget w1)
                   | Inr (Some targetIndex) \<Rightarrow>
                       (if targetIndex < currentIndex state then
                          migrateDown_private env state targetIndex (emit GetTarget w1)
                        else if targetIndex > currentIndex state then
                          migrateUp_private env state targetIndex (emit GetTarget w1)
                        else (Inr noResults, emit GetTarget w1))))))"

text \<open>
  \<^verbatim>\<open>try { ... } finally { await releaseMigrationLock(db) }\<close>: the release runs after every
  outcome of the block, and an error thrown by it replaces that outcome.
\<close>

definition run ::
  "'u env \<Rightarrow> 'u MigrationsOrFolderPath \<Rightarrow> 'u getTargetMigration \<Rightarrow> ctx \<Rightarrow> 'u world
     \<Rightarrow> (thrown + MigrationResultSet) \<times> 'u world" where
  "run env migrationsOrFolderPath getTarget db w =
     (case run_try env migrationsOrFolderPath getTarget db w of
        (r, w1) \<Rightarrow>
          (case releaseMigrationLock env (trace w1) of
             Some e \<Rightarrow> (Inl (Plain e), emit (ReleaseLock db) w1)
           | None \<Rightarrow> (r, emit (ReleaseLock db) w1)))"

text \<open>
  Modelled from the spec: \<^verbatim>\<open>Kysely.transaction().execute\<close> and
  \<^verbatim>\<open>Kysely.connection().execute\<close> live in \<^verbatim>\<open>kysely.ts\<close>, which is not part of the sources
  at hand. With transactional DDL the whole plan runs inside one transaction, and on any
  failure the changes of the batch are rolled back together with the ledger updates, leaving
  the state as it was before the call; otherwise the same sequence runs on one reserved
  connection without a transaction, and the steps already applied stay applied. The history
  of calls is not part of the database and is never rolled back.
\<close>

definition transaction_execute ::
  "'u env \<Rightarrow> (ctx \<Rightarrow> 'u world \<Rightarrow> (thrown + 'a) \<times> 'u world) \<Rightarrow> 'u world
     \<Rightarrow> (thrown + 'a) \<times> 'u world" where
  "transaction_execute env callback w =
     (case beginFails env (trace w) of
        Some e \<Rightarrow> (Inl (Plain e), emit (Begin Transaction) w)
      | None \<Rightarrow>
          (case callback Transaction (emit (Begin Transaction) w) of
             (Inl t, w1) \<Rightarrow> (Inl t, emit Rollback (w1\<lparr>ledger := ledger w, user := user w\<rparr>))
           | (Inr r, w1) \<Rightarrow>
               (case commitFails env (trace w1) of
                  Some e \<Rightarrow>
                    (Inl (Plain e), emit Rollback (w1\<lparr>ledger := ledger w, user := user w\<rparr>))
                | None \<Rightarrow> (Inr r, emit Commit w1))))"

definition connection_execute ::
  "'u env \<Rightarrow> (ctx \<Rightarrow> 'u world \<Rightarrow> (thrown + 'a) \<times> 'u world) \<Rightarrow> 'u world
     \<Rightarrow> (thrown + 'a) \<times> 'u world" where
  "connection_execute env callback w =
     (case beginFails env (trace w) of
        Some e \<Rightarrow> (Inl (Plain e), emit (Begin Connection) w)
      | None \<Rightarrow> callback Connection (emit (Begin Connection) w))"

definition runMigrations ::
  "'u env \<Rightarrow> 'u MigrationsOrFolderPath \<Rightarrow> 'u getTargetMigration \<Rightarrow> 'u world
     \<Rightarrow> (thrown + MigrationResultSet) \<times> 'u world" where
  "runMigrations env migrationsOrFolderPath getTarget w =
     (if supportsTransactionalDdl env then
        transaction_execute env (run env migrationsOrFolderPath getTarget) w
      else connection_execute env (run env migrationsOrFolderPath getTarget) w)"

subsection \<open>Public operations\<close>

text \<open>
  \<^verbatim>\<open>#migrate\<close>: the \<^verbatim>\<open>catch\<close> turns whatever was thrown into a result set, so the
  operation is a total function into result sets.
\<close>

definition migrate ::
  "'u env \<Rightarrow> 'u MigrationsOrFolderPath \<Rightarrow> 'u getTargetMigration \<Rightarrow> 'u world
     \<Rightarrow> MigrationResultSet \<times> 'u world" where
  "migrate env migrationsOrFolderPath getTarget w =
     (case ensureMigrationTablesExists env w of
        (Some e, w1) \<Rightarrow> (\<lparr>error = Some e, results = None\<rparr>, w1)
      | (None, w1) \<Rightarrow>
          (case runMigrations env migrationsOrFolderPath getTarget w1 of
             (Inr resultSet, w2) \<Rightarrow> (resultSet, w2)
           | (Inl (MigrationResultSetError resultSet), w2) \<Rightarrow> (resultSet, w2)
           | (Inl (Plain e), w2) \<Rightarrow> (\<lparr>error = Some e, results = None\<rparr>, w2)))"

definition targetLatest :: "'u getTargetMigration" where
  "targetLatest state = Inr (Some (int (length (migrations state)) - 1))"

definition targetTo :: "targetMigrationName \<Rightarrow> 'u getTargetMigration" where
  "targetTo targetMigrationName state =
     (case targetMigrationName of
        NO_MIGRATIONS \<Rightarrow> Inr (Some (- 1))
      | Name n \<Rightarrow>
          (let index = findIndex (\<lambda>it. name it = n) (migrations state) in
           if index = - 1 then Inl (MigrationDoesNotExist n) else Inr (Some index)))"

definition targetUp :: "'u getTargetMigration" where
  "targetUp state =
     Inr (Some (min (currentIndex state + 1) (int (length (migrations state)) - 1)))"

definition targetDown :: "'u getTargetMigration" where
  "targetDown state = Inr (Some (max (currentIndex state - 1) (- 1)))"

definition migrateToLatest ::
  "'u env \<Rightarrow> 'u MigrationsOrFolderPath \<Rightarrow> 'u world \<Rightarrow> MigrationResultSet \<times> 'u world" where
  "migrateToLatest env migrationsOrFolderPath = migrate env migrationsOrFolderPath targetLatest"

definition migrateTo ::
  "'u env \<Rightarrow> 'u MigrationsOrFolderPath \<Rightarrow> targetMigrationName \<Rightarrow> 'u world
     \<Rightarrow> MigrationResultSet \<times> 'u world" where
  "migrateTo env migrationsOrFolderPath targetMigrationName =
     migrate env migrationsOrFolderPath (targetTo targetMigrationName)"

definition migrateUp ::
  "'u env \<Rightarrow> 'u MigrationsOrFolderPath \<Rightarrow> 'u world \<Rightarrow> MigrationResultSet \<times> 'u world" where
  "migrateUp env migrationsOrFolderPath = migrate env migrationsOrFolderPath targetUp"

definition migrateDown ::
  "'u env \<Rightarrow> 'u MigrationsOrFolderPath \<Rightarrow> 'u world \<Rightarrow> MigrationResultSet \<times> 'u world" where
  "migrateDown env migrationsOrFolderPath = migrate env migrationsOrFolderPath targetDown"

subsection \<open>Vocabulary of the properties\<close>

text \<open>The two errors thrown by \<^verbatim>\<open>#ensureMigrationsNotCorrupted\<close>.\<close>

fun isCorruption :: "exn \<Rightarrow> bool" where
  "isCorruption (CorruptedMissing n) = True"
| "isCorruption (CorruptedOrder a i b) = True"
| "isCorruption e = False"

text \<open>
  Events are sorted by the part of a run they belong to; \<open>since w w'\<close> are the events added
  between two worlds, and \<open>grows P w w'\<close> says the history was only extended, by events
  satisfying \<open>P\<close>. \<open>lockReleased\<close> holds of a history in which every acquisition of the
  lock is followed by a release on the same handle.
\<close>

datatype event_kind = Bootstrap | Context | Lock | Planning | Step

fun kind :: "event \<Rightarrow> event_kind" where
  "kind GetMetadata = Bootstrap"
| "kind (CreateTable t) = Bootstrap"
| "kind SelectLockRow = Bootstrap"
| "kind InsertLockRow = Bootstrap"
| "kind (Begin c) = Context"
| "kind Commit = Context"
| "kind Rollback = Context"
| "kind (AcquireLock c) = Lock"
| "kind (ReleaseLock c) = Lock"
| "kind SelectLedger = Planning"
| "kind GetTarget = Planning"
| "kind (CallUp n) = Step"
| "kind (CallDown n) = Step"
| "kind (InsertLedger n) = Step"
| "kind (DeleteLedger n) = Step"

definition since :: "'u world \<Rightarrow> 'u world \<Rightarrow> event list" where
  "since w w' = drop (length (trace w)) (trace w')"

definition grows :: "(event \<Rightarrow> bool) \<Rightarrow> 'u world \<Rightarrow> 'u world \<Rightarrow> bool" where
  "grows P w w' \<longleftrightarrow> prefix (trace w) (trace w') \<and> list_all P (since w w')"

fun lockReleased :: "event list \<Rightarrow> bool" where
  "lockReleased [] = True"
| "lockReleased (AcquireLock c # es) = (ReleaseLock c \<in> set es \<and> lockReleased es)"
| "lockReleased (e # es) = lockReleased es"


text \<open>
  Proof devices: \<open>planned\<close> is the entry both executors pre-populate their result list
  with, and \<open>upRun\<close> and \<open>downRun\<close> are the two execution loops of \<^verbatim>\<open>#migrateUp\<close> and
  \<^verbatim>\<open>#migrateDown\<close> written by recursion over the entries still to run. They are shown equal
  to the index-driven loops \<open>execUp\<close> and \<open>execDown\<close> below and are used in proofs only.
\<close>

definition planned :: "direction \<Rightarrow> 'u NamedMigration \<Rightarrow> MigrationResult" where
  "planned d m = \<lparr>migrationName = name m, direction = d, status = NotExecuted\<rparr>"

fun upRun ::
  "'u env \<Rightarrow> 'u NamedMigration list \<Rightarrow> MigrationResult list \<Rightarrow> MigrationResult list \<Rightarrow> 'u world
     \<Rightarrow> (thrown + MigrationResult list) \<times> 'u world" where
  "upRun env ms finished [] w = (Inr finished, w)"
| "upRun env ms finished (p # pending) w =
     (case find (\<lambda>it. name it = migrationName p) ms of
        None \<Rightarrow> (Inl (Plain TypeError), w)
      | Some m \<Rightarrow>
          (case up m of
             None \<Rightarrow>
               (Inl (stepFailed TypeError (finished @ p # pending) (length finished) (name m) Up),
                w)
           | Some f \<Rightarrow>
               (case f (user w) of
                  (Some e, u1) \<Rightarrow>
                    (Inl (stepFailed e (finished @ p # pending) (length finished) (name m) Up),
                     emit (CallUp (name m)) (w\<lparr>user := u1\<rparr>))
                | (None, u1) \<Rightarrow>
                    (case insertInto env (name m) (emit (CallUp (name m)) (w\<lparr>user := u1\<rparr>)) of
                       (Some e, w2) \<Rightarrow>
                         (Inl (stepFailed e (finished @ p # pending) (length finished) (name m) Up),
                          w2)
                     | (None, w2) \<Rightarrow>
                         upRun env ms
                           (finished @
                              [\<lparr>migrationName = name m, direction = Up, status = Success\<rparr>])
                           pending w2))))"

fun downRun ::
  "'u env \<Rightarrow> 'u NamedMigration list \<Rightarrow> MigrationResult list \<Rightarrow> MigrationResult list \<Rightarrow> 'u world
     \<Rightarrow> (thrown + MigrationResult list) \<times> 'u world" where
  "downRun env ms finished [] w = (Inr finished, w)"
| "downRun env ms finished (p # pending) w =
     (case find (\<lambda>it. name it = migrationName p) ms of
        None \<Rightarrow> (Inl (Plain TypeError), w)
      | Some m \<Rightarrow>
          (case down m of
             None \<Rightarrow> downRun env ms (finished @ [p]) pending w
           | Some f \<Rightarrow>
               (case f (user w) of
                  (Some e, u1) \<Rightarrow>
                    (Inl (stepFailed e (finished @ p # pending) (length finished) (name m) Down),
                     emit (CallDown (name m)) (w\<lparr>user := u1\<rparr>))
                | (None, u1) \<Rightarrow>
                    (case deleteFrom env (name m) (emit (CallDown (name m)) (w\<lparr>user := u1\<rparr>)) of
                       (Some e, w2) \<Rightarrow>
                         (Inl (stepFailed e (finished @ p # pending) (length finished) (name m) Down),
                          w2)
                     | (None, w2) \<Rightarrow>
                         downRun env ms
                           (finished @
                              [\<lparr>migrationName = name m, direction = Down, status = Success\<rparr>])
                           pending w2))))"

text \<open>
  Vocabulary for the outcome of the execution loops: an entry marked as succeeded or failed,
  a migration that defines a backward action, and the entry a down run leaves behind for a
  migration (untouched when there is no backward action).
\<close>

definition succeeded :: "direction \<Rightarrow> MigrationResult \<Rightarrow> MigrationResult" where
  "succeeded d p = \<lparr>migrationName = migrationName p, direction = d, status = Success\<rparr>"

definition failed :: "direction \<Rightarrow> MigrationResult \<Rightarrow> MigrationResult" where
  "failed d p = \<lparr>migrationName = migrationName p, direction = d, status = Error\<rparr>"

definition reversible :: "'u NamedMigration list \<Rightarrow> string \<Rightarrow> bool" where
  "reversible ms n =
     (case find (\<lambda>it. name it = n) ms of Some m \<Rightarrow> down m \<noteq> None | None \<Rightarrow> False)"

definition reversed :: "'u NamedMigration list \<Rightarrow> MigrationResult \<Rightarrow> MigrationResult" where
  "reversed ms p = (if reversible ms (migrationName p) then succeeded Down p else p)"

text \<open>
  \<open>touches n e\<close>: the event \<open>e\<close> is a call of an action of migration \<open>n\<close> or a change of its
  ledger record.
\<close>

fun touches :: "string \<Rightarrow> event \<Rightarrow> bool" where
  "touches n (CallUp m) = (m = n)"
| "touches n (CallDown m) = (m = n)"
| "touches n (InsertLedger m) = (m = n)"
| "touches n (DeleteLedger m) = (m = n)"
| "touches n e = False"

text \<open>
  The shapes of a result set: after a step-execution failure the list holds entries without
  \<open>Error\<close>, then the failing entry, then only \<open>NotExecuted\<close> entries (\<open>truncated\<close>); a run
  that completed has no error and no \<open>Error\<close> entry; a failure before a step plan existed
  has an error and no results field.
\<close>

fun truncated :: "MigrationResult list \<Rightarrow> bool" where
  "truncated [] = False"
| "truncated (r # rs) =
     (if status r = Error then list_all (\<lambda>x. status x = NotExecuted) rs else truncated rs)"

definition stepFailure :: "MigrationResultSet \<Rightarrow> bool" where
  "stepFailure rset \<longleftrightarrow>
     error rset \<noteq> None \<and> (case results rset of Some rs \<Rightarrow> truncated rs | None \<Rightarrow> False)"

definition completed :: "MigrationResultSet \<Rightarrow> bool" where
  "completed rset \<longleftrightarrow>
     error rset = None \<and>
     (case results rset of Some rs \<Rightarrow> list_all (\<lambda>x. status x \<noteq> Error) rs | None \<Rightarrow> False)"

definition planningFailure :: "MigrationResultSet \<Rightarrow> bool" where
  "planningFailure rset \<longleftrightarrow> error rset \<noteq> None \<and> results rset = None"

text \<open>
  The handle the locked scope runs on, the four public operations as modes of one dispatcher,
  the conversion done by the \<^verbatim>\<open>catch\<close> of \<^verbatim>\<open>#migrate\<close>, and the world in which the locked
  scope is entered (after the bootstrap and the start of the transaction or connection).
\<close>

definition handle :: "'u env \<Rightarrow> ctx" where
  "handle env = (if supportsTransactionalDdl env then Transaction else Connection)"

datatype mode = ToLatest | To targetMigrationName | StepUp | StepDown

definition operate ::
  "'u env \<Rightarrow> mode \<Rightarrow> 'u MigrationsOrFolderPath \<Rightarrow> 'u world \<Rightarrow> MigrationResultSet \<times> 'u world"
  where
  "operate env m migrationsOrFolderPath w =
     (case m of
        ToLatest \<Rightarrow> migrateToLatest env migrationsOrFolderPath w
      | To targetMigrationName \<Rightarrow> migrateTo env migrationsOrFolderPath targetMigrationName w
      | StepUp \<Rightarrow> migrateUp env migrationsOrFolderPath w
      | StepDown \<Rightarrow> migrateDown env migrationsOrFolderPath w)"

definition targetOf :: "mode \<Rightarrow> 'u getTargetMigration" where
  "targetOf m =
     (case m of
        ToLatest \<Rightarrow> targetLatest
      | To targetMigrationName \<Rightarrow> targetTo targetMigrationName
      | StepUp \<Rightarrow> targetUp
      | StepDown \<Rightarrow> targetDown)"

definition settle :: "thrown + MigrationResultSet \<Rightarrow> MigrationResultSet" where
  "settle r =
     (case r of
        Inr resultSet \<Rightarrow> resultSet
      | Inl (MigrationResultSetError resultSet) \<Rightarrow> resultSet
      | Inl (Plain e) \<Rightarrow> \<lparr>error = Some e, results = None\<rparr>)"



text \<open>
  A concrete setting for the examples: an environment in which no collaborator fails, with or
  without transactional DDL, and whose database compares names as they are; migrations acting
  on a log of applied changes, given as object literals (every property is the object's own);
  three migrations \<open>a\<close>, \<open>b\<close>, \<open>c\<close> of which \<open>b\<close> fails going forward; and a database with an
  empty ledger.
\<close>

definition calmEnv :: "bool \<Rightarrow> 'u env" where
  "calmEnv tx =
     \<lparr>supportsTransactionalDdl = tx,
      acquireMigrationLock = (\<lambda>_. None),
      releaseMigrationLock = (\<lambda>_. None),
      getMetadata = (\<lambda>_. Inr [MIGRATION_TABLE, MIGRATION_LOCK_TABLE]),
      createTable = (\<lambda>_ _. None),
      selectLockRow = (\<lambda>_. Inr True),
      insertLockRow = (\<lambda>_. None),
      selectFails = (\<lambda>_. None),
      insertFails = (\<lambda>_. None),
      deleteFails = (\<lambda>_. None),
      beginFails = (\<lambda>_. None),
      commitFails = (\<lambda>_. None),
      readdir = (\<lambda>_. Inr []),
      importModule = (\<lambda>_. Inl (Foreign ''no such module'')),
      now = (\<lambda>_. ''2022-01-01T00:00:00.000Z''),
      collation = (\<lambda>n. n)\<rparr>"

definition applies :: "string \<Rightarrow> string list action" where
  "applies n u = (None, u @ [n])"

definition fails :: "string list action" where
  "fails u = (Some (Foreign ''boom''), u)"

definition literal :: "'u action \<Rightarrow> 'u action option \<Rightarrow> 'u object" where
  "literal forward backward =
     Object \<lparr>up = Some forward, down = backward\<rparr> \<lparr>up = None, down = None\<rparr>"

definition abc :: "string list MigrationsOrFolderPath" where
  "abc = AllMigrations
     [(''c'', literal (applies ''+c'') (Some (applies ''-c''))),
      (''a'', literal (applies ''+a'') (Some (applies ''-a''))),
      (''b'', literal fails (Some (applies ''-b'')))]"

definition fresh :: "string list world" where
  "fresh = \<lparr>ledger = [], user = [], trace = []\<rparr>"

text \<open>
  An environment is calm when no collaborator fails, whatever the history: the bootstrap
  succeeds, the transaction or connection starts and commits, the lock is acquired and
  released, and the ledger queries run.
\<close>

definition calm :: "'u env \<Rightarrow> bool" where
  "calm env \<longleftrightarrow>
     (\<forall>w :: 'u world. fst (ensureMigrationTablesExists env w) = None) \<and>
     (\<forall>t. beginFails env t = None) \<and>
     (\<forall>t. acquireMigrationLock env t = None) \<and>
     (\<forall>t. releaseMigrationLock env t = None) \<and>
     (\<forall>t. selectFails env t = None) \<and>
     (\<forall>t. insertFails env t = None) \<and>
     (\<forall>t. deleteFails env t = None) \<and>
     (\<forall>t. commitFails env t = None)"

text \<open>
  The database orders a list of names as the code does when its collation keeps the order of
  \<^verbatim>\<open>Array.prototype.sort\<close> on these names.
\<close>

definition agrees :: "'u env \<Rightarrow> string list \<Rightarrow> bool" where
  "agrees env ns \<longleftrightarrow>
     (\<forall>a \<in> set ns. \<forall>b \<in> set ns. a < b \<longrightarrow> collation env a < collation env b)"

text \<open>A database whose ledger holds the record of \<open>b\<close> alone.\<close>

definition onlyB :: "string list world" where
  "onlyB = \<lparr>ledger = [(''b'', ''2021-12-31T00:00:00.000Z'')], user = [''+b''], trace = []\<rparr>"

text \<open>A source that resolves to no migration at all.\<close>

definition noSource :: "string list MigrationsOrFolderPath" where
  "noSource = AllMigrations []"

text \<open>
  Two migrations that both succeed, and a database on which both have been executed.
\<close>

definition ac :: "string list MigrationsOrFolderPath" where
  "ac = AllMigrations
     [(''a'', literal (applies ''+a'') (Some (applies ''-a''))),
      (''c'', literal (applies ''+c'') (Some (applies ''-c'')))]"

definition migratedAC :: "string list world" where
  "migratedAC =
     \<lparr>ledger = [(''a'', ''2021-12-31T00:00:00.000Z''), (''c'', ''2021-12-31T00:00:01.000Z'')],
      user = [''+a'', ''+c''], trace = []\<rparr>"

text \<open>The world after \<open>n\<close> calls of an operation in a row.\<close>

definition repeatedly ::
  "('u world \<Rightarrow> MigrationResultSet \<times> 'u world) \<Rightarrow> nat \<Rightarrow> 'u world \<Rightarrow> 'u world" where
  "repeatedly operation n w = ((\<lambda>v. snd (operation v)) ^^ n) w"

text \<open>A source of three migrations named \<open>a\<close>, \<open>b\<close> and \<open>c\<close>.\<close>

definition three :: "'u object \<Rightarrow> 'u object \<Rightarrow> 'u object \<Rightarrow> 'u MigrationsOrFolderPath"
  where
  "three A B C = AllMigrations [(''a'', A), (''b'', B), (''c'', C)]"

text \<open>
  Three resolved migrations of which \<open>b\<close> has no backward action, and a database on which
  all three have been executed.
\<close>

definition aM :: "string list NamedMigration" where
  "aM = \<lparr>up = Some (applies ''+a''), down = Some (applies ''-a''), name = ''a''\<rparr>"

definition bM :: "string list NamedMigration" where
  "bM = \<lparr>up = Some (applies ''+b''), down = None, name = ''b''\<rparr>"

definition cM :: "string list NamedMigration" where
  "cM = \<lparr>up = Some (applies ''+c''), down = Some (applies ''-c''), name = ''c''\<rparr>"

definition migratedABC :: "string list world" where
  "migratedABC =
     \<lparr>ledger = [(''a'', ''2021-12-31T00:00:00.000Z''), (''b'', ''2021-12-31T00:00:01.000Z''),
                (''c'', ''2021-12-31T00:00:02.000Z'')],
      user = [''+a'', ''+b'', ''+c''], trace = []\<rparr>"

text \<open>
  The source \<open>a\<close>, \<open>b\<close>, \<open>c\<close> in which \<open>b\<close> has no backward action.
\<close>

definition oneWayB :: "string list MigrationsOrFolderPath" where
  "oneWayB = three (literal (applies ''+a'') (Some (applies ''-a'')))
                   (literal (applies ''+b'') None)
                   (literal (applies ''+c'') (Some (applies ''-c'')))"


text \<open>
  A database whose collation ignores case, and a source whose two names \<open>B\<close> and \<open>a\<close> it
  orders the other way round than \<^verbatim>\<open>Array.prototype.sort\<close> does.
\<close>

definition lower :: "char \<Rightarrow> char" where
  "lower c = (if CHR ''A'' \<le> c \<and> c \<le> CHR ''Z'' then char_of (of_char c + (32 :: nat)) else c)"

definition noCase :: "string list env" where
  "noCase = (calmEnv False)\<lparr>collation := map lower\<rparr>"

definition aB :: "string list MigrationsOrFolderPath" where
  "aB = AllMigrations
     [(''a'', literal (applies ''+a'') (Some (applies ''-a''))),
      (''B'', literal (applies ''+B'') (Some (applies ''-B'')))]"

text \<open>
  An instance of a class whose methods are \<^verbatim>\<open>up\<close> and \<^verbatim>\<open>down\<close>: the object holds neither
  itself. In the source \<open>byClass\<close> the migration \<open>a\<close> is such an instance.
\<close>

definition instance_of :: "'u action \<Rightarrow> 'u action option \<Rightarrow> 'u object" where
  "instance_of forward backward =
     Object \<lparr>up = None, down = None\<rparr> \<lparr>up = Some forward, down = backward\<rparr>"

definition byClass :: "string list MigrationsOrFolderPath" where
  "byClass = three (instance_of (applies ''+a'') (Some (applies ''-a'')))
                   (literal fails (Some (applies ''-b'')))
                   (literal (applies ''+c'') (Some (applies ''-c'')))"

section \<open>Properties\<close>

subsection \<open>Planner\<close>
lemma emit_simps [simp]:
  "ledger (emit e w) = ledger w" "user (emit e w) = user w" "trace (emit e w) = trace w @ [e]"
  by (simp_all add: emit_def)

lemma name_named [simp]: "name (named al n) = n"
  by (simp add: named_def split: option.splits)

lemma resolve_names:
  assumes "resolveMigrations env src = Inr ms"
  shows "map name ms = sort (map name ms)" and "distinct (map name ms)" and "sorted (map name ms)"
proof -
  from assms obtain al where ms: "ms = map (named al) (sort (remdups (map fst al)))"
    by (auto simp: resolveMigrations_def split: sum.splits)
  have n: "map name ms = sort (remdups (map fst al))"
    by (simp add: ms comp_def)
  show "distinct (map name ms)" "sorted (map name ms)" by (simp_all add: n)
  then show "map name ms = sort (map name ms)" by (simp add: sort_key_id_if_sorted)
qed


lemma checkMissing_None_iff: "checkMissing ms ex = None \<longleftrightarrow> set ex \<subseteq> name ` set ms"
  by (induction ex) (auto simp: list_ex_iff)

lemma checkMissing_Some: "checkMissing ms ex = Some e \<Longrightarrow> isCorruption e"
  by (induction ex) (auto split: if_splits)

lemma checkOrder_None_iff:
  "checkOrder ms ex i = None \<longleftrightarrow>
     (\<forall>j. i \<le> j \<and> j < length ex \<longrightarrow> j < length ms \<and> name (ms ! j) = ex ! j)"
proof (induction ms ex i rule: checkOrder.induct)
  case (1 ms ex i)
  show ?case
  proof (cases "i < length ex \<and> i < length ms \<and> name (ms ! i) = ex ! i")
    case True
    then have "checkOrder ms ex i = checkOrder ms ex (i + 1)"
      by (subst checkOrder.simps) simp
    also have "\<dots> = None \<longleftrightarrow>
        (\<forall>j. i + 1 \<le> j \<and> j < length ex \<longrightarrow> j < length ms \<and> name (ms ! j) = ex ! j)"
      using 1 True by simp
    also have "\<dots> \<longleftrightarrow> (\<forall>j. i \<le> j \<and> j < length ex \<longrightarrow> j < length ms \<and> name (ms ! j) = ex ! j)"
      (is "?A \<longleftrightarrow> ?B")
    proof
      assume a: ?A
      show ?B
      proof (intro allI impI)
        fix j assume "i \<le> j \<and> j < length ex"
        then show "j < length ms \<and> name (ms ! j) = ex ! j"
          using a True by (cases "j = i") auto
      qed
    next
      assume ?B then show ?A by auto
    qed
    finally show ?thesis .
  next
    case False
    then show ?thesis
      by (subst checkOrder.simps) auto
  qed
qed

lemma checkOrder_Some:
  "checkOrder ms ex i = Some e \<Longrightarrow> isCorruption e \<or> (e = TypeError \<and> length ms < length ex)"
proof (induction ms ex i rule: checkOrder.induct)
  case (1 ms ex i)
  from "1.prems" show ?case
    by (subst (asm) checkOrder.simps) (auto split: if_splits dest: "1.IH")
qed

lemma ensure_None_iff:
  "ensureMigrationsNotCorrupted ms ex = None \<longleftrightarrow> prefix ex (map name ms)"
proof
  assume "ensureMigrationsNotCorrupted ms ex = None"
  then have "checkOrder ms ex 0 = None"
    by (auto simp: ensureMigrationsNotCorrupted_def split: option.splits)
  then have *: "\<forall>j < length ex. j < length ms \<and> name (ms ! j) = ex ! j"
    by (simp add: checkOrder_None_iff)
  have "length ex \<le> length ms"
  proof (rule ccontr)
    assume "\<not> length ex \<le> length ms"
    then have "length ms < length ex" by simp
    with * have "length ms < length ms" by blast
    then show False by simp
  qed
  with * have "ex = take (length ex) (map name ms)"
    by (intro nth_equalityI) auto
  then show "prefix ex (map name ms)"
    by (metis take_is_prefix)
next
  assume "prefix ex (map name ms)"
  then obtain zs where zs: "map name ms = ex @ zs" by (auto simp: prefix_def)
  then have len: "length ex \<le> length ms"
    by (metis length_append length_map le_add1)
  have nth: "\<And>j. j < length ex \<Longrightarrow> name (ms ! j) = ex ! j"
    using zs len by (metis length_map less_le_trans nth_append nth_map)
  have "set ex \<subseteq> name ` set ms"
    using zs by (metis Un_upper1 set_append set_map)
  then have "checkMissing ms ex = None" by (simp add: checkMissing_None_iff)
  moreover have "checkOrder ms ex 0 = None"
    using len nth by (auto simp: checkOrder_None_iff)
  ultimately show "ensureMigrationsNotCorrupted ms ex = None"
    by (simp add: ensureMigrationsNotCorrupted_def)
qed

lemma ensure_Some_corruption:
  assumes "distinct ex" and "ensureMigrationsNotCorrupted ms ex = Some e"
  shows "isCorruption e"
proof (cases "checkMissing ms ex")
  case (Some e')
  with assms(2) show ?thesis
    by (auto simp: ensureMigrationsNotCorrupted_def dest: checkMissing_Some)
next
  case None
  then have sub: "set ex \<subseteq> name ` set ms" by (simp add: checkMissing_None_iff)
  have "length ex = card (set ex)" using assms(1) by (simp add: distinct_card)
  also have "\<dots> \<le> card (name ` set ms)" using sub by (simp add: card_mono)
  also have "\<dots> \<le> length ms"
    by (metis card_image_le card_length le_trans List.finite_set)
  finally have "\<not> length ms < length ex" by simp
  moreover from None assms(2) have "checkOrder ms ex 0 = Some e"
    by (simp add: ensureMigrationsNotCorrupted_def)
  ultimately show ?thesis using checkOrder_Some by blast
qed

lemma findIndex_bounds: "- 1 \<le> findIndex P xs \<and> findIndex P xs < int (length xs)"
  by (induction xs) (auto simp: Let_def)

lemma findIndex_none: "(\<forall>x \<in> set xs. \<not> P x) \<Longrightarrow> findIndex P xs = - 1"
  by (induction xs) auto

lemma findIndex_none_iff: "findIndex P xs = - 1 \<longleftrightarrow> (\<forall>x \<in> set xs. \<not> P x)"
proof (induction xs)
  case Nil
  then show ?case by simp
next
  case (Cons x xs)
  have "- 1 \<le> findIndex P xs" using findIndex_bounds by blast
  with Cons show ?case by (auto simp: Let_def)
qed

lemma findIndex_nth:
  "distinct (map f xs) \<Longrightarrow> i < length xs \<Longrightarrow> findIndex (\<lambda>x. f x = f (xs ! i)) xs = int i"
proof (induction xs arbitrary: i)
  case Nil
  then show ?case by simp
next
  case (Cons x xs)
  show ?case
  proof (cases i)
    case 0
    then show ?thesis by simp
  next
    case (Suc k)
    with Cons.prems have k: "k < length xs" and d: "distinct (map f xs)" by auto
    have "f x \<noteq> f (xs ! k)" using Cons.prems k by (auto simp: image_iff)
    moreover have "findIndex (\<lambda>y. f y = f (xs ! k)) xs = int k" using Cons.IH [OF d k] .
    ultimately show ?thesis using Suc by (simp add: Let_def)
  qed
qed

subsection \<open>Histories and frames\<close>

lemma grows_iff: "grows P w w' \<longleftrightarrow> (\<exists>es. trace w' = trace w @ es \<and> list_all P es)"
  by (auto simp: grows_def since_def prefix_def)

lemma since_append: "trace w' = trace w @ es \<Longrightarrow> since w w' = es"
  by (simp add: since_def)

lemma grows_refl [simp]: "grows P w w"
  by (simp add: grows_iff)

lemma grows_trans: "grows P w w1 \<Longrightarrow> grows P w1 w2 \<Longrightarrow> grows P w w2"
  by (auto simp: grows_iff)

lemma grows_mono: "grows P w w' \<Longrightarrow> (\<And>e. P e \<Longrightarrow> Q e) \<Longrightarrow> grows Q w w'"
  by (auto simp: grows_iff list_all_iff)

lemma grows_emit: "grows P w w1 \<Longrightarrow> P e \<Longrightarrow> grows P w (emit e w1)"
  by (auto simp: grows_iff)

lemma grows_emit_left: "grows P (emit e w) w1 \<Longrightarrow> P e \<Longrightarrow> grows P w w1"
  by (auto simp: grows_iff)

lemma grows_update [simp]:
  "grows P w (w1\<lparr>ledger := l\<rparr>) = grows P w w1"
  "grows P w (w1\<lparr>user := u\<rparr>) = grows P w w1"
  "grows P (w\<lparr>ledger := l\<rparr>) w1 = grows P w w1"
  "grows P (w\<lparr>user := u\<rparr>) w1 = grows P w w1"
  by (simp_all add: grows_def since_def)

lemma emit_update [simp]:
  "emit e (w\<lparr>ledger := l\<rparr>) = (emit e w)\<lparr>ledger := l\<rparr>"
  "emit e (w\<lparr>user := u\<rparr>) = (emit e w)\<lparr>user := u\<rparr>"
  by (simp_all add: emit_def)

lemma doesTableExists_frame:
  "doesTableExists env t w = (r, w') \<Longrightarrow> w' = emit GetMetadata w"
  by (auto simp: doesTableExists_def split: sum.splits)

lemma doesLockRowExists_frame:
  "doesLockRowExists env w = (r, w') \<Longrightarrow> w' = emit SelectLockRow w"
  by (auto simp: doesLockRowExists_def split: sum.splits)

lemma ensureMigrationTableExists_frame:
  "ensureMigrationTableExists env w = (r, w') \<Longrightarrow>
     ledger w' = ledger w \<and> user w' = user w \<and> grows (\<lambda>e. kind e = Bootstrap) w w'"
  unfolding ensureMigrationTableExists_def
  by (auto split: prod.splits sum.splits bool.splits option.splits
      dest!: doesTableExists_frame simp: grows_iff)

lemma ensureMigrationLockTableExists_frame:
  "ensureMigrationLockTableExists env w = (r, w') \<Longrightarrow>
     ledger w' = ledger w \<and> user w' = user w \<and> grows (\<lambda>e. kind e = Bootstrap) w w'"
  unfolding ensureMigrationLockTableExists_def
  by (auto split: prod.splits sum.splits bool.splits option.splits
      dest!: doesTableExists_frame simp: grows_iff)

lemma ensureLockRowExists_frame:
  "ensureLockRowExists env w = (r, w') \<Longrightarrow>
     ledger w' = ledger w \<and> user w' = user w \<and> grows (\<lambda>e. kind e = Bootstrap) w w'"
  unfolding ensureLockRowExists_def
  by (auto split: prod.splits sum.splits bool.splits option.splits
      dest!: doesLockRowExists_frame simp: grows_iff)

lemma ensureMigrationTablesExists_frame:
  assumes "ensureMigrationTablesExists env w = (r, w')"
  shows "ledger w' = ledger w" and "user w' = user w" and "grows (\<lambda>e. kind e = Bootstrap) w w'"
  using assms unfolding ensureMigrationTablesExists_def
  by (auto split: prod.splits option.splits
      dest!: ensureMigrationTableExists_frame ensureMigrationLockTableExists_frame
        ensureLockRowExists_frame
      intro: grows_trans)

lemma getExecutedMigrations_frame:
  "getExecutedMigrations env w = (r, w') \<Longrightarrow> w' = emit SelectLedger w"
  by (auto simp: getExecutedMigrations_def split: option.splits)

lemma getState_frame:
  assumes "getState env src w = (r, w')"
  shows "w' = w \<or> w' = emit SelectLedger w"
  using assms unfolding getState_def
  by (auto split: sum.splits prod.splits option.splits dest!: getExecutedMigrations_frame)

lemma insertInto_frame:
  assumes "insertInto env n w = (r, w')"
  shows "user w' = user w" and "trace w' = trace w @ [InsertLedger n]"
    and "r = None \<Longrightarrow> ledger w' = ledger w @ [(n, now env (trace w))] \<and> n \<notin> set (map fst (ledger w))"
    and "r \<noteq> None \<Longrightarrow> ledger w' = ledger w"
  using assms by (auto simp: insertInto_def split: option.splits if_splits)

lemma deleteFrom_frame:
  assumes "deleteFrom env n w = (r, w')"
  shows "user w' = user w" and "trace w' = trace w @ [DeleteLedger n]"
    and "r = None \<Longrightarrow> ledger w' = filter (\<lambda>row. fst row \<noteq> n) (ledger w)"
    and "r \<noteq> None \<Longrightarrow> ledger w' = ledger w"
  using assms by (auto simp: deleteFrom_def split: option.splits if_splits)

subsection \<open>Executor loops\<close>

lemma nthMigration_Some:
  "0 \<le> i \<Longrightarrow> i < int (length ms) \<Longrightarrow> nthMigration ms i = Some (ms ! nat i)"
  by (simp add: nthMigration_def)

lemma planUp_eq:
  "0 \<le> i \<Longrightarrow> t < int (length ms) \<Longrightarrow>
     planUp ms i t rs = Inr (rs @ map (planned Up) (drop (nat i) (take (nat (t + 1)) ms)))"
proof (induction ms i t rs rule: planUp.induct)
  case (1 ms i t rs)
  show ?case
  proof (cases "i \<le> t")
    case False
    then show ?thesis by (subst planUp.simps) simp
  next
    case True
    with "1.prems" have m: "nthMigration ms i = Some (ms ! nat i)"
      by (simp add: nthMigration_def)
    have lt: "nat i < length (take (nat (t + 1)) ms)"
      using True "1.prems" by simp
    have "nat i < nat (t + 1)" using True "1.prems" by simp
    then have "take (nat (t + 1)) ms ! nat i = ms ! nat i" by simp
    then have "drop (nat i) (take (nat (t + 1)) ms) =
            ms ! nat i # drop (nat (i + 1)) (take (nat (t + 1)) ms)"
      using Cons_nth_drop_Suc [OF lt, symmetric] "1.prems"(1)
      by (simp add: nat_add_distrib)
    moreover have "planUp ms (i + 1) t (rs @ [planned Up (ms ! nat i)]) =
        Inr ((rs @ [planned Up (ms ! nat i)]) @
             map (planned Up) (drop (nat (i + 1)) (take (nat (t + 1)) ms)))"
      using "1.IH" [OF True m] "1.prems" by (simp add: planned_def)
    ultimately show ?thesis
      using True m by (subst planUp.simps) (simp add: planned_def)
  qed
qed

lemma planDown_eq:
  "- 1 \<le> t \<Longrightarrow> i < int (length ms) \<Longrightarrow>
     planDown ms i t rs =
       Inr (rs @ map (planned Down) (rev (drop (nat (t + 1)) (take (nat (i + 1)) ms))))"
proof (induction ms i t rs rule: planDown.induct)
  case (1 ms i t rs)
  show ?case
  proof (cases "i > t")
    case False
    then show ?thesis by (subst planDown.simps) simp
  next
    case True
    with "1.prems" have i0: "0 \<le> i" by simp
    with "1.prems" have m: "nthMigration ms i = Some (ms ! nat i)"
      by (simp add: nthMigration_def)
    have lt: "nat i < length ms" using i0 "1.prems" by simp
    have "take (nat (i + 1)) ms = take (nat i) ms @ [ms ! nat i]"
      using take_Suc_conv_app_nth [OF lt] i0 by (simp add: nat_add_distrib)
    moreover have "nat (t + 1) \<le> length (take (nat i) ms)"
      using True lt "1.prems" by simp
    ultimately have "rev (drop (nat (t + 1)) (take (nat (i + 1)) ms)) =
        ms ! nat i # rev (drop (nat (t + 1)) (take (nat i) ms))"
      by simp
    moreover have "planDown ms (i - 1) t (rs @ [planned Down (ms ! nat i)]) =
        Inr ((rs @ [planned Down (ms ! nat i)]) @
             map (planned Down) (rev (drop (nat (t + 1)) (take (nat (i - 1 + 1)) ms))))"
      using "1.IH" [OF True m] "1.prems" by (simp add: planned_def)
    ultimately show ?thesis
      using True m by (subst planDown.simps) (simp add: planned_def)
  qed
qed

lemma take_update_Suc: "i < length rs \<Longrightarrow> take (Suc i) (rs[i := x]) = take i rs @ [x]"
  by (simp add: take_Suc_conv_app_nth)

lemma execUp_upRun:
  "i \<le> length rs \<Longrightarrow>
     execUp env st i rs w = upRun env (migrations st) (take i rs) (drop i rs) w"
proof (induction env st i rs w rule: execUp.induct)
  case (1 env state i rs w)
  show ?case
  proof (cases "i < length rs")
    case False
    with "1.prems" show ?thesis by (subst execUp.simps) simp
  next
    case True
    have d: "drop i rs = rs ! i # drop (Suc i) rs"
      using True by (simp add: Cons_nth_drop_Suc)
    have whole: "take i rs @ rs ! i # drop (Suc i) rs = rs"
      using True by (simp add: id_take_nth_drop [symmetric])
    have len: "length (take i rs) = i" using True by simp
    have step: "\<And>m f u1 w2.
        find (\<lambda>it. name it = migrationName (rs ! i)) (migrations state) = Some m \<Longrightarrow>
        up m = Some f \<Longrightarrow> f (user w) = (None, u1) \<Longrightarrow>
        insertInto env (name m) (emit (CallUp (name m)) (w\<lparr>user := u1\<rparr>)) = (None, w2) \<Longrightarrow>
        execUp env state (Suc i)
          (rs[i := \<lparr>migrationName = name m, direction = Up, status = Success\<rparr>]) w2 =
        upRun env (migrations state)
          (take i rs @ [\<lparr>migrationName = name m, direction = Up, status = Success\<rparr>])
          (drop (Suc i) rs) w2"
      using "1.IH" [OF True] True by (simp add: take_update_Suc)
    show ?thesis
      apply (subst execUp.simps)
      apply (subst d)
      apply (simp add: True whole len split: option.splits prod.splits)
      using step by auto
  qed
qed


lemma execDown_downRun:
  "i \<le> length rs \<Longrightarrow>
     execDown env st i rs w = downRun env (migrations st) (take i rs) (drop i rs) w"
proof (induction env st i rs w rule: execDown.induct)
  case (1 env state i rs w)
  show ?case
  proof (cases "i < length rs")
    case False
    with "1.prems" show ?thesis by (subst execDown.simps) simp
  next
    case True
    have d: "drop i rs = rs ! i # drop (Suc i) rs"
      using True by (simp add: Cons_nth_drop_Suc)
    have whole: "take i rs @ rs ! i # drop (Suc i) rs = rs"
      using True by (simp add: id_take_nth_drop [symmetric])
    have len: "length (take i rs) = i" using True by simp
    have skip: "\<And>m.
        find (\<lambda>it. name it = migrationName (rs ! i)) (migrations state) = Some m \<Longrightarrow>
        down m = None \<Longrightarrow>
        execDown env state (Suc i) rs w =
        downRun env (migrations state) (take i rs @ [rs ! i]) (drop (Suc i) rs) w"
      using "1.IH"(1) [OF True] True by (simp add: take_Suc_conv_app_nth)
    have step: "\<And>m f u1 w2.
        find (\<lambda>it. name it = migrationName (rs ! i)) (migrations state) = Some m \<Longrightarrow>
        down m = Some f \<Longrightarrow>
        f (user w) = (None, u1) \<Longrightarrow>
        deleteFrom env (name m) (emit (CallDown (name m)) (w\<lparr>user := u1\<rparr>)) = (None, w2) \<Longrightarrow>
        execDown env state (Suc i)
          (rs[i := \<lparr>migrationName = name m, direction = Down, status = Success\<rparr>]) w2 =
        downRun env (migrations state)
          (take i rs @ [\<lparr>migrationName = name m, direction = Down, status = Success\<rparr>])
          (drop (Suc i) rs) w2"
      using "1.IH"(2) [OF True] True by (simp add: take_update_Suc)
    show ?thesis
      apply (subst execDown.simps)
      apply (subst d)
      apply (simp add: True whole len split: option.splits prod.splits)
      using step skip by auto
  qed
qed

subsection \<open>Outcome of the up loop\<close>

lemma find_name: "find (\<lambda>it. name it = n) ms = Some m \<Longrightarrow> name m = n \<and> m \<in> set ms"
  by (auto simp: find_Some_iff)

lemma find_distinct:
  "distinct (map name ms) \<Longrightarrow> m \<in> set ms \<Longrightarrow> find (\<lambda>it. name it = name m) ms = Some m"
proof (induction ms)
  case Nil
  then show ?case by simp
next
  case (Cons a ms)
  show ?case
  proof (cases "a = m")
    case True
    then show ?thesis by simp
  next
    case False
    with Cons.prems have "m \<in> set ms" "name a \<noteq> name m" by (auto simp: image_iff)
    with Cons show ?thesis by simp
  qed
qed

lemma stepFailed_eq:
  "stepFailed e (finished @ p # pending) (length finished) (migrationName p) d =
     MigrationResultSetError
       \<lparr>error = Some e, results = Some (finished @ failed d p # pending)\<rparr>"
  by (simp add: stepFailed_def failed_def)

lemma upRun_grows:
  "upRun env ms finished pending w = (r, w') \<Longrightarrow> grows (\<lambda>e. kind e = Step) w w'"
proof (induction pending arbitrary: finished w)
  case Nil
  then show ?case by simp
next
  case (Cons p pending)
  show ?case
  proof (cases "find (\<lambda>it. name it = migrationName p) ms")
    case None
    with Cons.prems show ?thesis by simp
  next
    case (Some m)
    show ?thesis
    proof (cases "up m")
      case None
      with Cons.prems Some show ?thesis by simp
    next
      case f: (Some f)
      obtain ro u1 where up: "f (user w) = (ro, u1)" by (cases "f (user w)")
      let ?w1 = "emit (CallUp (name m)) (w\<lparr>user := u1\<rparr>)"
      obtain ri w2 where ins: "insertInto env (name m) ?w1 = (ri, w2)"
        by (cases "insertInto env (name m) ?w1")
      have g1: "grows (\<lambda>e. kind e = Step) w ?w1" by (simp add: grows_iff)
      have g2: "grows (\<lambda>e. kind e = Step) w w2"
        using insertInto_frame(2) [OF ins] by (simp add: grows_iff)
      show ?thesis
      proof (cases "ro = None \<and> ri = None")
        case True
        with Cons.prems Some f up ins have "upRun env ms
            (finished @ [\<lparr>migrationName = name m, direction = Up, status = Success\<rparr>])
            pending w2 = (r, w')" by simp
        from g2 Cons.IH [OF this] show ?thesis by (rule grows_trans)
      next
        case False
        with Cons.prems Some f up ins g1 g2 show ?thesis by (cases ro; cases ri) auto
      qed
    qed
  qed
qed

lemma upRun_Inr:
  "upRun env ms finished pending w = (Inr rs', w') \<Longrightarrow>
     rs' = finished @ map (succeeded Up) pending \<and>
     map fst (ledger w') = map fst (ledger w) @ map migrationName pending"
proof (induction pending arbitrary: finished w)
  case Nil
  then show ?case by simp
next
  case (Cons p pending)
  have "find (\<lambda>it. name it = migrationName p) ms \<noteq> None"
  proof
    assume "find (\<lambda>it. name it = migrationName p) ms = None"
    with Cons.prems show False by simp
  qed
  then obtain m where m: "find (\<lambda>it. name it = migrationName p) ms = Some m"
    by blast
  from find_name [OF this] have nm: "name m = migrationName p" ..
  have "up m \<noteq> None" using Cons.prems m by (cases "up m") simp_all
  then obtain f where f: "up m = Some f" by blast
  obtain ro u1 where up: "f (user w) = (ro, u1)" by (cases "f (user w)")
  let ?w1 = "emit (CallUp (name m)) (w\<lparr>user := u1\<rparr>)"
  obtain ri w2 where ins: "insertInto env (name m) ?w1 = (ri, w2)"
    by (cases "insertInto env (name m) ?w1")
  have ro: "ro = None" using Cons.prems m f up by (cases ro) simp_all
  have ri: "ri = None" using Cons.prems m f up ins ro by (cases ri) simp_all
  note ok = ro ri
  with Cons.prems m f up ins have "upRun env ms
      (finished @ [\<lparr>migrationName = name m, direction = Up, status = Success\<rparr>])
      pending w2 = (Inr rs', w')" by simp
  from Cons.IH [OF this] insertInto_frame(3) [OF ins ok(2)] nm
  show ?case by (simp add: succeeded_def)
qed

lemma upRun_failed:
  "upRun env ms finished pending w = (Inl (MigrationResultSetError rset), w') \<Longrightarrow>
     \<exists>e pre p post. pending = pre @ p # post \<and>
       rset = \<lparr>error = Some e,
               results = Some (finished @ map (succeeded Up) pre @ failed Up p # post)\<rparr> \<and>
       map fst (ledger w') = map fst (ledger w) @ map migrationName pre"
proof (induction pending arbitrary: finished w)
  case Nil
  then show ?case by simp
next
  case (Cons p pending)
  have "find (\<lambda>it. name it = migrationName p) ms \<noteq> None"
  proof
    assume "find (\<lambda>it. name it = migrationName p) ms = None"
    with Cons.prems show False by simp
  qed
  then obtain m where m: "find (\<lambda>it. name it = migrationName p) ms = Some m"
    by blast
  from find_name [OF this] have nm: "name m = migrationName p" ..
  show ?case
  proof (cases "up m")
  case absent: None
    with Cons.prems m nm
    have "rset = \<lparr>error = Some TypeError, results = Some (finished @ failed Up p # pending)\<rparr>"
      and "ledger w' = ledger w"
      by (auto simp: stepFailed_eq)
    then show ?thesis
      by (intro exI [of _ TypeError] exI [of _ "[]"] exI [of _ p] exI [of _ pending]) simp
  next
  case f: (Some f)
  obtain ro u1 where up: "f (user w) = (ro, u1)" by (cases "f (user w)")
  let ?w1 = "emit (CallUp (name m)) (w\<lparr>user := u1\<rparr>)"
  obtain ri w2 where ins: "insertInto env (name m) ?w1 = (ri, w2)"
    by (cases "insertInto env (name m) ?w1")
  show ?thesis
  proof (cases ro)
    case (Some e)
    with Cons.prems m f up nm
    have "rset = \<lparr>error = Some e, results = Some (finished @ failed Up p # pending)\<rparr>"
      and "ledger w' = ledger w"
      by (auto simp: stepFailed_eq)
    then show ?thesis by (intro exI [of _ e] exI [of _ "[]"] exI [of _ p] exI [of _ pending]) simp
  next
    case None
    show ?thesis
    proof (cases ri)
      case (Some e)
      with Cons.prems m f up nm None ins insertInto_frame(4) [OF ins]
      have "rset = \<lparr>error = Some e, results = Some (finished @ failed Up p # pending)\<rparr>"
        and "ledger w' = ledger w"
        by (auto simp: stepFailed_eq)
      then show ?thesis
        by (intro exI [of _ e] exI [of _ "[]"] exI [of _ p] exI [of _ pending]) simp
    next
      case None2: None
      with Cons.prems m f up ins None have "upRun env ms
          (finished @ [\<lparr>migrationName = name m, direction = Up, status = Success\<rparr>])
          pending w2 = (Inl (MigrationResultSetError rset), w')" by simp
      from Cons.IH [OF this] obtain e pre q post where
        "pending = pre @ q # post"
        "rset = \<lparr>error = Some e,
                 results = Some ((finished @
                    [\<lparr>migrationName = name m, direction = Up, status = Success\<rparr>]) @
                    map (succeeded Up) pre @ failed Up q # post)\<rparr>"
        "map fst (ledger w2) = map fst (ledger w2) @ [] \<and>
         map fst (ledger w') = map fst (ledger w2) @ map migrationName pre"
        by auto
      with insertInto_frame(3) [OF ins None2] nm show ?thesis
        by (intro exI [of _ e] exI [of _ "p # pre"] exI [of _ q] exI [of _ post])
          (simp add: succeeded_def)
    qed
  qed
  qed
qed

lemma upRun_Plain:
  "upRun env ms finished pending w = (Inl (Plain e), w') \<Longrightarrow>
     e = TypeError \<and> (\<exists>p \<in> set pending. find (\<lambda>it. name it = migrationName p) ms = None)"
proof (induction pending arbitrary: finished w)
  case Nil
  then show ?case by simp
next
  case (Cons p pending)
  show ?case
  proof (cases "find (\<lambda>it. name it = migrationName p) ms")
    case None
    with Cons.prems show ?thesis by simp
  next
    case (Some m)
    have "up m \<noteq> None" using Cons.prems Some by (cases "up m") (simp_all add: stepFailed_def)
    then obtain f where f: "up m = Some f" by blast
    obtain ro u1 where up: "f (user w) = (ro, u1)" by (cases "f (user w)")
    let ?w1 = "emit (CallUp (name m)) (w\<lparr>user := u1\<rparr>)"
    obtain ri w2 where ins: "insertInto env (name m) ?w1 = (ri, w2)"
      by (cases "insertInto env (name m) ?w1")
    have ro: "ro = None" using Cons.prems Some f up by (cases ro) (simp_all add: stepFailed_def)
    have ri: "ri = None"
      using Cons.prems Some f up ins ro by (cases ri) (simp_all add: stepFailed_def)
    note ok = ro ri
    with Cons.prems Some f up ins have "upRun env ms
        (finished @ [\<lparr>migrationName = name m, direction = Up, status = Success\<rparr>])
        pending w2 = (Inl (Plain e), w')" by simp
    from Cons.IH [OF this] show ?thesis by simp
  qed
qed

subsection \<open>Outcome of the down loop\<close>

lemma downRun_grows:
  "downRun env ms finished pending w = (r, w') \<Longrightarrow>
     grows (\<lambda>e. kind e = Step \<and>
              (\<exists>p \<in> set pending. reversible ms (migrationName p) \<and> touches (migrationName p) e))
       w w'"
proof (induction pending arbitrary: finished w)
  case Nil
  then show ?case by simp
next
  case (Cons p pending)
  let ?P = "\<lambda>e. kind e = Step \<and>
              (\<exists>q \<in> set (p # pending). reversible ms (migrationName q) \<and> touches (migrationName q) e)"
  have weaken: "\<And>v v'. grows (\<lambda>e. kind e = Step \<and>
              (\<exists>q \<in> set pending. reversible ms (migrationName q) \<and> touches (migrationName q) e))
       v v' \<Longrightarrow> grows ?P v v'"
    by (erule grows_mono) auto
  show ?case
  proof (cases "find (\<lambda>it. name it = migrationName p) ms")
    case None
    with Cons.prems show ?thesis by simp
  next
    case (Some m)
    from find_name [OF this] have nm: "name m = migrationName p" ..
    show ?thesis
    proof (cases "down m")
      case None
      with Cons.prems Some have "downRun env ms (finished @ [p]) pending w = (r, w')" by simp
      from weaken [OF Cons.IH [OF this]] show ?thesis .
    next
      case f: (Some f)
      then have rev: "reversible ms (migrationName p)" by (simp add: reversible_def Some)
      obtain ro u1 where dn: "f (user w) = (ro, u1)" by (cases "f (user w)")
      let ?w1 = "emit (CallDown (name m)) (w\<lparr>user := u1\<rparr>)"
      obtain ri w2 where del: "deleteFrom env (name m) ?w1 = (ri, w2)"
        by (cases "deleteFrom env (name m) ?w1")
      have g1: "grows ?P w ?w1" using rev nm by (simp add: grows_iff)
      have g2: "grows ?P w w2"
        using deleteFrom_frame(2) [OF del] rev nm by (simp add: grows_iff)
      show ?thesis
      proof (cases "ro = None \<and> ri = None")
        case True
        with Cons.prems Some f dn del have "downRun env ms
            (finished @ [\<lparr>migrationName = name m, direction = Down, status = Success\<rparr>])
            pending w2 = (r, w')" by simp
        from g2 weaken [OF Cons.IH [OF this]] show ?thesis by (rule grows_trans)
      next
        case False
        with Cons.prems Some f dn del g1 g2 show ?thesis by (cases ro; cases ri) auto
      qed
    qed
  qed
qed

lemma downRun_user_ledger:
  "downRun env ms finished pending w = (r, w') \<Longrightarrow>
     (\<forall>p \<in> set pending. \<not> reversible ms (migrationName p)) \<Longrightarrow>
     ledger w' = ledger w \<and> user w' = user w \<and> trace w' = trace w"
proof (induction pending arbitrary: finished w)
  case Nil
  then show ?case by simp
next
  case (Cons p pending)
  show ?case
  proof (cases "find (\<lambda>it. name it = migrationName p) ms")
    case None
    with Cons.prems show ?thesis by simp
  next
    case (Some m)
    with Cons.prems(2) have "down m = None" by (simp add: reversible_def)
    with Cons.prems Some have "downRun env ms (finished @ [p]) pending w = (r, w')" by simp
    from Cons.IH [OF this] Cons.prems(2) show ?thesis by simp
  qed
qed

lemma downRun_Inr:
  "downRun env ms finished pending w = (Inr rs', w') \<Longrightarrow>
     rs' = finished @ map (reversed ms) pending \<and>
     ledger w' =
       filter (\<lambda>row. \<not> (fst row \<in> migrationName ` set pending \<and> reversible ms (fst row)))
         (ledger w)"
proof (induction pending arbitrary: finished w)
  case Nil
  then show ?case by simp
next
  case (Cons p pending)
  have "find (\<lambda>it. name it = migrationName p) ms \<noteq> None"
  proof
    assume "find (\<lambda>it. name it = migrationName p) ms = None"
    with Cons.prems show False by simp
  qed
  then obtain m where m: "find (\<lambda>it. name it = migrationName p) ms = Some m"
    by blast
  from find_name [OF this] have nm: "name m = migrationName p" ..
  show ?case
  proof (cases "down m")
    case None
    then have rev: "\<not> reversible ms (migrationName p)" by (simp add: reversible_def m)
    from None Cons.prems m have "downRun env ms (finished @ [p]) pending w = (Inr rs', w')"
      by simp
    from Cons.IH [OF this] rev show ?thesis
      by (auto simp: reversed_def intro!: filter_cong)
  next
    case f: (Some f)
    then have rev: "reversible ms (migrationName p)" by (simp add: reversible_def m)
    obtain ro u1 where dn: "f (user w) = (ro, u1)" by (cases "f (user w)")
    let ?w1 = "emit (CallDown (name m)) (w\<lparr>user := u1\<rparr>)"
    obtain ri w2 where del: "deleteFrom env (name m) ?w1 = (ri, w2)"
      by (cases "deleteFrom env (name m) ?w1")
    have ro: "ro = None" using Cons.prems m f dn by (cases ro) simp_all
    have ri: "ri = None" using Cons.prems m f dn del ro by (cases ri) simp_all
    with Cons.prems m f dn del ro have "downRun env ms
        (finished @ [\<lparr>migrationName = name m, direction = Down, status = Success\<rparr>])
        pending w2 = (Inr rs', w')" by simp
    from Cons.IH [OF this] deleteFrom_frame(3) [OF del ri] nm rev show ?thesis
      by (auto simp: reversed_def succeeded_def intro!: filter_cong)
  qed
qed

lemma downRun_failed:
  "downRun env ms finished pending w = (Inl (MigrationResultSetError rset), w') \<Longrightarrow>
     \<exists>e pre p post. pending = pre @ p # post \<and> reversible ms (migrationName p) \<and>
       rset = \<lparr>error = Some e,
               results = Some (finished @ map (reversed ms) pre @ failed Down p # post)\<rparr> \<and>
       ledger w' =
         filter (\<lambda>row. \<not> (fst row \<in> migrationName ` set pre \<and> reversible ms (fst row)))
           (ledger w)"
proof (induction pending arbitrary: finished w)
  case Nil
  then show ?case by simp
next
  case (Cons p pending)
  have "find (\<lambda>it. name it = migrationName p) ms \<noteq> None"
  proof
    assume "find (\<lambda>it. name it = migrationName p) ms = None"
    with Cons.prems show False by simp
  qed
  then obtain m where m: "find (\<lambda>it. name it = migrationName p) ms = Some m"
    by blast
  from find_name [OF this] have nm: "name m = migrationName p" ..
  show ?case
  proof (cases "down m")
    case None
    then have rev: "\<not> reversible ms (migrationName p)" by (simp add: reversible_def m)
    from None Cons.prems m
    have "downRun env ms (finished @ [p]) pending w = (Inl (MigrationResultSetError rset), w')"
      by simp
    from Cons.IH [OF this] obtain e pre q post where *:
      "pending = pre @ q # post" "reversible ms (migrationName q)"
      "rset = \<lparr>error = Some e,
               results = Some ((finished @ [p]) @ map (reversed ms) pre @ failed Down q # post)\<rparr>"
      "ledger w' =
         filter (\<lambda>row. \<not> (fst row \<in> migrationName ` set pre \<and> reversible ms (fst row)))
           (ledger w)"
      by auto
    have "ledger w' =
         filter (\<lambda>row. \<not> (fst row \<in> migrationName ` set (p # pre) \<and> reversible ms (fst row)))
           (ledger w)"
      unfolding *(4) using rev by (auto intro!: filter_cong)
    with * rev show ?thesis
      by (intro exI [of _ e] exI [of _ "p # pre"] exI [of _ q] exI [of _ post])
        (simp add: reversed_def)
  next
    case f: (Some f)
    then have rev: "reversible ms (migrationName p)" by (simp add: reversible_def m)
    obtain ro u1 where dn: "f (user w) = (ro, u1)" by (cases "f (user w)")
    let ?w1 = "emit (CallDown (name m)) (w\<lparr>user := u1\<rparr>)"
    obtain ri w2 where del: "deleteFrom env (name m) ?w1 = (ri, w2)"
      by (cases "deleteFrom env (name m) ?w1")
    show ?thesis
    proof (cases ro)
      case (Some e)
      with Cons.prems m f dn nm
      have "rset = \<lparr>error = Some e, results = Some (finished @ failed Down p # pending)\<rparr>"
        and "ledger w' = ledger w"
        by (auto simp: stepFailed_eq)
      with rev show ?thesis
        by (intro exI [of _ e] exI [of _ "[]"] exI [of _ p] exI [of _ pending]) simp
    next
      case None
      show ?thesis
      proof (cases ri)
        case (Some e)
        with Cons.prems m f dn nm None del deleteFrom_frame(4) [OF del]
        have "rset = \<lparr>error = Some e, results = Some (finished @ failed Down p # pending)\<rparr>"
          and "ledger w' = ledger w"
          by (auto simp: stepFailed_eq)
        with rev show ?thesis
          by (intro exI [of _ e] exI [of _ "[]"] exI [of _ p] exI [of _ pending]) simp
      next
        case None2: None
        with Cons.prems m f dn del None have "downRun env ms
            (finished @ [\<lparr>migrationName = name m, direction = Down, status = Success\<rparr>])
            pending w2 = (Inl (MigrationResultSetError rset), w')" by simp
        from Cons.IH [OF this] obtain e pre q post where *:
          "pending = pre @ q # post" "reversible ms (migrationName q)"
          "rset = \<lparr>error = Some e,
               results = Some ((finished @
                  [\<lparr>migrationName = name m, direction = Down, status = Success\<rparr>]) @
                  map (reversed ms) pre @ failed Down q # post)\<rparr>"
          "ledger w' =
             filter (\<lambda>row. \<not> (fst row \<in> migrationName ` set pre \<and> reversible ms (fst row)))
               (ledger w2)"
          by auto
        have "ledger w' =
           filter (\<lambda>row. \<not> (fst row \<in> migrationName ` set (p # pre) \<and> reversible ms (fst row)))
             (ledger w)"
          unfolding *(4) using deleteFrom_frame(3) [OF del None2] nm rev
          by (auto intro!: filter_cong)
        with * rev nm show ?thesis
          by (intro exI [of _ e] exI [of _ "p # pre"] exI [of _ q] exI [of _ post])
            (simp add: reversed_def succeeded_def)
      qed
    qed
  qed
qed

lemma downRun_Plain:
  "downRun env ms finished pending w = (Inl (Plain e), w') \<Longrightarrow>
     e = TypeError \<and> (\<exists>p \<in> set pending. find (\<lambda>it. name it = migrationName p) ms = None)"
proof (induction pending arbitrary: finished w)
  case Nil
  then show ?case by simp
next
  case (Cons p pending)
  show ?case
  proof (cases "find (\<lambda>it. name it = migrationName p) ms")
    case None
    with Cons.prems show ?thesis by simp
  next
    case (Some m)
    show ?thesis
    proof (cases "down m")
      case None
      with Cons.prems Some have "downRun env ms (finished @ [p]) pending w = (Inl (Plain e), w')"
        by simp
      from Cons.IH [OF this] show ?thesis by simp
    next
      case f: (Some f)
      obtain ro u1 where dn: "f (user w) = (ro, u1)" by (cases "f (user w)")
      let ?w1 = "emit (CallDown (name m)) (w\<lparr>user := u1\<rparr>)"
      obtain ri w2 where del: "deleteFrom env (name m) ?w1 = (ri, w2)"
        by (cases "deleteFrom env (name m) ?w1")
      have ro: "ro = None"
        using Cons.prems Some f dn by (cases ro) (simp_all add: stepFailed_def)
      have ri: "ri = None"
        using Cons.prems Some f dn del ro by (cases ri) (simp_all add: stepFailed_def)
      with Cons.prems Some f dn del ro have "downRun env ms
          (finished @ [\<lparr>migrationName = name m, direction = Down, status = Success\<rparr>])
          pending w2 = (Inl (Plain e), w')" by simp
      from Cons.IH [OF this] show ?thesis by simp
    qed
  qed
qed

subsection \<open>Outcome of the private executors\<close>

lemma truncated_append:
  "list_all (\<lambda>x. status x \<noteq> Error) pre \<Longrightarrow> status q = Error \<Longrightarrow>
     list_all (\<lambda>x. status x = NotExecuted) post \<Longrightarrow> truncated (pre @ q # post)"
  by (induction pre) auto

lemma planUp_entries:
  "planUp ms i t rs = Inr rs' \<Longrightarrow> \<exists>add. rs' = rs @ map (planned Up) add \<and> set add \<subseteq> set ms"
proof (induction ms i t rs rule: planUp.induct)
  case (1 ms i t rs)
  show ?case
  proof (cases "i \<le> t")
    case False
    with "1.prems" have "rs' = rs" by (subst (asm) planUp.simps) simp
    then show ?thesis by (intro exI [of _ "[]"]) simp
  next
    case True
    show ?thesis
    proof (cases "nthMigration ms i")
      case None
      with True "1.prems" show ?thesis by (subst (asm) planUp.simps) simp
    next
      case (Some m)
      then have mem: "m \<in> set ms" by (auto simp: nthMigration_def split: if_splits)
      from True Some "1.prems" have "planUp ms (i + 1) t
          (rs @ [\<lparr>migrationName = name m, direction = Up, status = NotExecuted\<rparr>]) = Inr rs'"
        by (subst (asm) planUp.simps) simp
      from "1.IH" [OF True Some this] obtain add where
        "rs' = (rs @ [\<lparr>migrationName = name m, direction = Up, status = NotExecuted\<rparr>]) @
           map (planned Up) add" "set add \<subseteq> set ms"
        by blast
      with mem show ?thesis by (intro exI [of _ "m # add"]) (simp add: planned_def)
    qed
  qed
qed

lemma planDown_entries:
  "planDown ms i t rs = Inr rs' \<Longrightarrow> \<exists>add. rs' = rs @ map (planned Down) add \<and> set add \<subseteq> set ms"
proof (induction ms i t rs rule: planDown.induct)
  case (1 ms i t rs)
  show ?case
  proof (cases "i > t")
    case False
    with "1.prems" have "rs' = rs" by (subst (asm) planDown.simps) simp
    then show ?thesis by (intro exI [of _ "[]"]) simp
  next
    case True
    show ?thesis
    proof (cases "nthMigration ms i")
      case None
      with True "1.prems" show ?thesis by (subst (asm) planDown.simps) simp
    next
      case (Some m)
      then have mem: "m \<in> set ms" by (auto simp: nthMigration_def split: if_splits)
      from True Some "1.prems" have "planDown ms (i - 1) t
          (rs @ [\<lparr>migrationName = name m, direction = Down, status = NotExecuted\<rparr>]) = Inr rs'"
        by (subst (asm) planDown.simps) simp
      from "1.IH" [OF True Some this] obtain add where
        "rs' = (rs @ [\<lparr>migrationName = name m, direction = Down, status = NotExecuted\<rparr>]) @
           map (planned Down) add" "set add \<subseteq> set ms"
        by blast
      with mem show ?thesis by (intro exI [of _ "m # add"]) (simp add: planned_def)
    qed
  qed
qed

lemma planUp_Inl: "planUp ms i t rs = Inl e \<Longrightarrow> e = TypeError"
proof (induction ms i t rs rule: planUp.induct)
  case (1 ms i t rs)
  from "1.prems" show ?case
    by (subst (asm) planUp.simps) (auto split: if_splits option.splits dest: "1.IH")
qed

lemma planDown_Inl: "planDown ms i t rs = Inl e \<Longrightarrow> e = TypeError"
proof (induction ms i t rs rule: planDown.induct)
  case (1 ms i t rs)
  from "1.prems" show ?case
    by (subst (asm) planDown.simps) (auto split: if_splits option.splits dest: "1.IH")
qed

lemma find_member: "m \<in> set ms \<Longrightarrow> find (\<lambda>it. name it = name m) ms \<noteq> None"
  by (auto simp: find_None_iff)

lemma status_simps [simp]:
  "status (planned d m) = NotExecuted" "status (succeeded d p) = Success"
  "status (failed d p) = Error"
  "migrationName (planned d m) = name m" "migrationName (succeeded d p) = migrationName p"
  "migrationName (failed d p) = migrationName p"
  "direction (planned d m) = d" "direction (succeeded d p) = d" "direction (failed d p) = d"
  by (simp_all add: planned_def succeeded_def failed_def)

lemma status_reversed:
  "status p = NotExecuted \<Longrightarrow> status (reversed ms p) \<noteq> Error"
  by (simp add: reversed_def)

text \<open>The three outcomes of the private executors.\<close>

lemma migrateUp_private_outcome:
  assumes "migrateUp_private env st t w = (r, w')"
  shows "case r of
           Inr rset \<Rightarrow> completed rset
         | Inl (MigrationResultSetError rset) \<Rightarrow> stepFailure rset
         | Inl (Plain e) \<Rightarrow> e = TypeError \<and> w' = w"
proof (cases "planUp (migrations st) (currentIndex st + 1) t []")
  case (Inl e)
  with assms planUp_Inl [OF Inl] show ?thesis by (auto simp: migrateUp_private_def)
next
  case (Inr rs)
  from planUp_entries [OF Inr] obtain add where
    rs: "rs = map (planned Up) add" and add: "set add \<subseteq> set (migrations st)" by auto
  have run: "execUp env st 0 rs w = upRun env (migrations st) [] rs w"
    by (simp add: execUp_upRun)
  obtain x w1 where x: "upRun env (migrations st) [] rs w = (x, w1)"
    by (cases "upRun env (migrations st) [] rs w")
  with assms Inr run have r: "r = (case x of Inl t \<Rightarrow> Inl t
      | Inr rs' \<Rightarrow> Inr \<lparr>error = None, results = Some rs'\<rparr>)" and "w' = w1"
    by (auto simp: migrateUp_private_def split: sum.splits)
  show ?thesis
  proof (cases x)
    case (Inr rs')
    with upRun_Inr [of env "migrations st" "[]" rs w rs' w1] x
    have "rs' = map (succeeded Up) rs" by simp
    with r Inr show ?thesis by (simp add: completed_def list_all_iff)
  next
    case (Inl th)
    show ?thesis
    proof (cases th)
      case (Plain e)
      with Inl x upRun_Plain [of env "migrations st" "[]" rs w e w1]
      obtain p where "p \<in> set rs" "find (\<lambda>it. name it = migrationName p) (migrations st) = None"
        by auto
      with rs add find_member have False by fastforce
      then show ?thesis ..
    next
      case (MigrationResultSetError rset)
      with Inl x upRun_failed [of env "migrations st" "[]" rs w rset w1]
      obtain e pre p post where *: "rs = pre @ p # post"
        "rset = \<lparr>error = Some e, results = Some (map (succeeded Up) pre @ failed Up p # post)\<rparr>"
        by auto
      have "\<And>q. q \<in> set rs \<Longrightarrow> status q = NotExecuted"
        using rs by auto
      then have "list_all (\<lambda>x. status x = NotExecuted) post"
        using *(1) by (auto simp: list_all_iff)
      then have "truncated (map (succeeded Up) pre @ failed Up p # post)"
        by (intro truncated_append) (simp_all add: list_all_iff)
      with * r Inl MigrationResultSetError show ?thesis by (simp add: stepFailure_def)
    qed
  qed
qed

lemma migrateDown_private_outcome:
  assumes "migrateDown_private env st t w = (r, w')"
  shows "case r of
           Inr rset \<Rightarrow> completed rset
         | Inl (MigrationResultSetError rset) \<Rightarrow> stepFailure rset
         | Inl (Plain e) \<Rightarrow> e = TypeError \<and> w' = w"
proof (cases "planDown (migrations st) (currentIndex st) t []")
  case (Inl e)
  with assms planDown_Inl [OF Inl] show ?thesis by (auto simp: migrateDown_private_def)
next
  case (Inr rs)
  from planDown_entries [OF Inr] obtain add where
    rs: "rs = map (planned Down) add" and add: "set add \<subseteq> set (migrations st)" by auto
  have run: "execDown env st 0 rs w = downRun env (migrations st) [] rs w"
    by (simp add: execDown_downRun)
  obtain x w1 where x: "downRun env (migrations st) [] rs w = (x, w1)"
    by (cases "downRun env (migrations st) [] rs w")
  with assms Inr run have r: "r = (case x of Inl t \<Rightarrow> Inl t
      | Inr rs' \<Rightarrow> Inr \<lparr>error = None, results = Some rs'\<rparr>)" and "w' = w1"
    by (auto simp: migrateDown_private_def split: sum.splits)
  have ne: "\<And>q. q \<in> set rs \<Longrightarrow> status q = NotExecuted"
    using rs by auto
  show ?thesis
  proof (cases x)
    case (Inr rs')
    with downRun_Inr [of env "migrations st" "[]" rs w rs' w1] x
    have "rs' = map (reversed (migrations st)) rs" by simp
    with r Inr ne show ?thesis by (simp add: completed_def list_all_iff status_reversed)
  next
    case (Inl th)
    show ?thesis
    proof (cases th)
      case (Plain e)
      with Inl x downRun_Plain [of env "migrations st" "[]" rs w e w1]
      obtain p where "p \<in> set rs" "find (\<lambda>it. name it = migrationName p) (migrations st) = None"
        by auto
      with rs add find_member have False by fastforce
      then show ?thesis ..
    next
      case (MigrationResultSetError rset)
      with Inl x downRun_failed [of env "migrations st" "[]" rs w rset w1]
      obtain e pre p post where *: "rs = pre @ p # post"
        "rset = \<lparr>error = Some e,
                 results = Some (map (reversed (migrations st)) pre @ failed Down p # post)\<rparr>"
        by auto
      have "list_all (\<lambda>x. status x = NotExecuted) post"
        using ne *(1) by (auto simp: list_all_iff)
      moreover have "list_all (\<lambda>x. status x \<noteq> Error) (map (reversed (migrations st)) pre)"
        using ne *(1) by (auto simp: list_all_iff status_reversed)
      ultimately have "truncated (map (reversed (migrations st)) pre @ failed Down p # post)"
        by (intro truncated_append) simp_all
      with * r Inl MigrationResultSetError show ?thesis by (simp add: stepFailure_def)
    qed
  qed
qed

subsection \<open>The locked scope\<close>

lemma operate_migrate: "operate env m src w = migrate env src (targetOf m) w"
  by (simp add: operate_def targetOf_def migrateToLatest_def migrateTo_def migrateUp_def
      migrateDown_def split: mode.splits)

lemma migrateUp_private_grows:
  "migrateUp_private env st t w = (r, w') \<Longrightarrow> grows (\<lambda>e. kind e = Step) w w'"
  by (auto simp: migrateUp_private_def execUp_upRun split: sum.splits prod.splits
      dest: upRun_grows)

lemma migrateDown_private_grows:
  "migrateDown_private env st t w = (r, w') \<Longrightarrow> grows (\<lambda>e. kind e = Step) w w'"
  by (auto simp: migrateDown_private_def execDown_downRun split: sum.splits prod.splits
      dest!: downRun_grows elim: grows_mono)

lemma completed_noResults [simp]: "completed noResults"
  by (simp add: completed_def noResults_def)

lemma run_try_trace:
  assumes "run_try env src gt h w = (r, w')"
  shows "\<exists>es. trace w' = trace w @ AcquireLock h # es \<and>
           list_all (\<lambda>e. kind e = Planning \<or> kind e = Step) es"
proof (cases "acquireMigrationLock env (trace w)")
  case (Some e)
  with assms show ?thesis by (auto simp: run_try_def)
next
  case None
  let ?w0 = "emit (AcquireLock h) w"
  obtain s w1 where gs: "getState env src ?w0 = (s, w1)" by (cases "getState env src ?w0")
  from getState_frame [OF gs] have w1: "w1 = ?w0 \<or> w1 = emit SelectLedger ?w0" .
  then have g1: "grows (\<lambda>e. kind e = Planning \<or> kind e = Step) ?w0 w1"
    by (auto simp: grows_iff)
  have g2: "grows (\<lambda>e. kind e = Planning \<or> kind e = Step) ?w0 (emit GetTarget w1)"
    using g1 by (rule grows_emit) simp
  have "grows (\<lambda>e. kind e = Planning \<or> kind e = Step) ?w0 w'"
  proof (cases s)
    case (Inl e)
    with assms None gs g1 show ?thesis by (simp add: run_try_def)
  next
    case (Inr st)
    show ?thesis
    proof (cases "length (migrations st) = 0")
      case True
      with assms None gs Inr g1 show ?thesis by (simp add: run_try_def)
    next
      case False
      show ?thesis
      proof (cases "gt st")
        case (Inl e)
        with assms None gs Inr False g2 show ?thesis by (simp add: run_try_def)
      next
        case tgt: (Inr topt)
        show ?thesis
        proof (cases topt)
          case None2: None
          with assms None gs Inr False g2 tgt show ?thesis by (simp add: run_try_def)
        next
          case (Some t)
          consider (dn) "t < currentIndex st" | (up) "t > currentIndex st" | (eq) "t = currentIndex st"
            by linarith
          then show ?thesis
          proof cases
            case dn
            with assms None gs Inr False tgt Some
            have "migrateDown_private env st t (emit GetTarget w1) = (r, w')"
              by (simp add: run_try_def)
            from migrateDown_private_grows [OF this]
            have "grows (\<lambda>e. kind e = Planning \<or> kind e = Step) (emit GetTarget w1) w'"
              by (rule grows_mono) simp
            with g2 show ?thesis by (rule grows_trans)
          next
            case up
            with assms None gs Inr False tgt Some
            have "migrateUp_private env st t (emit GetTarget w1) = (r, w')"
              by (simp add: run_try_def)
            from migrateUp_private_grows [OF this]
            have "grows (\<lambda>e. kind e = Planning \<or> kind e = Step) (emit GetTarget w1) w'"
              by (rule grows_mono) simp
            with g2 show ?thesis by (rule grows_trans)
          next
            case eq
            with assms None gs Inr False tgt Some g2 show ?thesis by (simp add: run_try_def)
          qed
        qed
      qed
    qed
  qed
  then show ?thesis by (auto simp: grows_iff)
qed

lemma run_trace:
  assumes "run env src gt h w = (r, w')"
  shows "\<exists>es. trace w' = trace w @ AcquireLock h # es @ [ReleaseLock h] \<and>
           list_all (\<lambda>e. kind e = Planning \<or> kind e = Step) es"
proof -
  obtain r1 w1 where rt: "run_try env src gt h w = (r1, w1)"
    by (cases "run_try env src gt h w")
  with assms have "trace w' = trace w1 @ [ReleaseLock h]"
    by (auto simp: run_def split: option.splits)
  with run_try_trace [OF rt] show ?thesis by auto
qed

lemma lockReleased_append:
  "list_all (\<lambda>e. kind e \<noteq> Lock) xs \<Longrightarrow> lockReleased (xs @ ys) = lockReleased ys"
proof (induction xs)
  case Nil
  then show ?case by simp
next
  case (Cons x xs)
  then show ?case by (cases x) simp_all
qed

lemma lockReleased_quiet: "list_all (\<lambda>e. kind e \<noteq> Lock) xs \<Longrightarrow> lockReleased xs"
  using lockReleased_append [of xs "[]"] by simp

lemma lockReleased_scope:
  assumes "list_all (\<lambda>e. kind e \<noteq> Lock) xs" and "list_all (\<lambda>e. kind e \<noteq> Lock) es"
    and "list_all (\<lambda>e. kind e \<noteq> Lock) zs"
  shows "lockReleased (xs @ AcquireLock h # es @ ReleaseLock h # zs)"
proof -
  have "lockReleased (es @ ReleaseLock h # zs)"
    using assms(2,3) by (simp add: lockReleased_append lockReleased_quiet)
  then show ?thesis using assms(1) by (simp add: lockReleased_append)
qed



subsection \<open>Every exit path releases the lock\<close>

lemma migrate_cases [consumes 1, case_names boot reserve ran]:
  assumes "migrate env src gt w = (r, w')"
  obtains
    (boot) e w0 where "ensureMigrationTablesExists env w = (Some e, w0)"
      and "r = \<lparr>error = Some e, results = None\<rparr>" and "w' = w0"
  | (reserve) e w0 where "ensureMigrationTablesExists env w = (None, w0)"
      and "beginFails env (trace w0) = Some e"
      and "r = \<lparr>error = Some e, results = None\<rparr>" and "w' = emit (Begin (handle env)) w0"
  | (ran) w0 x w2 where "ensureMigrationTablesExists env w = (None, w0)"
      and "beginFails env (trace w0) = None"
      and "run env src gt (handle env) (emit (Begin (handle env)) w0) = (x, w2)"
      and "\<not> supportsTransactionalDdl env \<Longrightarrow> r = settle x \<and> w' = w2"
      and "supportsTransactionalDdl env \<Longrightarrow>
             (case x of
                Inl t \<Rightarrow> r = settle x \<and>
                  w' = emit Rollback (w2\<lparr>ledger := ledger w0, user := user w0\<rparr>)
              | Inr rs \<Rightarrow>
                  (case commitFails env (trace w2) of
                     Some e \<Rightarrow> r = \<lparr>error = Some e, results = None\<rparr> \<and>
                       w' = emit Rollback (w2\<lparr>ledger := ledger w0, user := user w0\<rparr>)
                   | None \<Rightarrow> r = rs \<and> w' = emit Commit w2))"
proof -
  obtain b w0 where b: "ensureMigrationTablesExists env w = (b, w0)"
    by (cases "ensureMigrationTablesExists env w")
  show thesis
  proof (cases b)
    case (Some e)
    with assms b show ?thesis by (intro boot [of e w0]) (simp_all add: migrate_def)
  next
    case None
    show ?thesis
    proof (cases "beginFails env (trace w0)")
      case (Some e)
      with assms b None show ?thesis
        by (intro reserve [of w0 e]; cases "supportsTransactionalDdl env")
          (simp_all add: migrate_def runMigrations_def transaction_execute_def
            connection_execute_def handle_def)
    next
      case None2: None
      obtain x w2 where x: "run env src gt (handle env) (emit (Begin (handle env)) w0) = (x, w2)"
        by (cases "run env src gt (handle env) (emit (Begin (handle env)) w0)")
      show ?thesis
      proof (rule ran [OF _ None2 x])
        show "ensureMigrationTablesExists env w = (None, w0)" using b None by simp
      next
        assume "\<not> supportsTransactionalDdl env"
        with assms b None None2 x show "r = settle x \<and> w' = w2"
          by (auto simp: migrate_def runMigrations_def connection_execute_def handle_def
              settle_def split: sum.splits thrown.splits)
      next
        assume "supportsTransactionalDdl env"
        with assms b None None2 x show "case x of
                Inl t \<Rightarrow> r = settle x \<and>
                  w' = emit Rollback (w2\<lparr>ledger := ledger w0, user := user w0\<rparr>)
              | Inr rs \<Rightarrow>
                  (case commitFails env (trace w2) of
                     Some e \<Rightarrow> r = \<lparr>error = Some e, results = None\<rparr> \<and>
                       w' = emit Rollback (w2\<lparr>ledger := ledger w0, user := user w0\<rparr>)
                   | None \<Rightarrow> r = rs \<and> w' = emit Commit w2)"
          by (auto simp: migrate_def runMigrations_def transaction_execute_def handle_def
              settle_def split: sum.splits thrown.splits option.splits)
      qed
    qed
  qed
qed

lemma migrate_lockReleased:
  assumes "migrate env src gt w = (r, w')"
  shows "trace w' = trace w @ since w w' \<and> lockReleased (since w w')"
proof -
  let ?h = "handle env"
  have bq: "\<And>b w0. ensureMigrationTablesExists env w = (b, w0) \<Longrightarrow>
      \<exists>bs. trace w0 = trace w @ bs \<and> list_all (\<lambda>e. kind e \<noteq> Lock) bs"
  proof -
    fix b w0 assume "ensureMigrationTablesExists env w = (b, w0)"
    from ensureMigrationTablesExists_frame(3) [OF this]
    have "grows (\<lambda>e. kind e \<noteq> Lock) w w0" by (rule grows_mono) simp
    then show "\<exists>bs. trace w0 = trace w @ bs \<and> list_all (\<lambda>e. kind e \<noteq> Lock) bs"
      by (simp add: grows_iff)
  qed
  have "\<exists>es. trace w' = trace w @ es \<and> lockReleased es"
    using assms
  proof (cases rule: migrate_cases)
    case (boot e w0)
    from boot(3) bq [OF boot(1)] show ?thesis
      by (auto intro: lockReleased_quiet)
  next
    case (reserve e w0)
    from bq [OF reserve(1)] obtain bs where
      bs: "trace w0 = trace w @ bs" "list_all (\<lambda>e. kind e \<noteq> Lock) bs" by auto
    have "lockReleased (bs @ [Begin ?h])"
      using bs(2) by (intro lockReleased_quiet) simp
    with bs reserve(4) show ?thesis by auto
  next
    case (ran w0 x w2)
    from bq [OF ran(1)] obtain bs where
      bs: "trace w0 = trace w @ bs" "list_all (\<lambda>e. kind e \<noteq> Lock) bs" by auto
    from run_trace [OF ran(3)] obtain es where
      es: "trace w2 = (trace w0 @ [Begin ?h]) @ AcquireLock ?h # es @ [ReleaseLock ?h]"
        "list_all (\<lambda>e. kind e = Planning \<or> kind e = Step) es" by auto
    have q: "list_all (\<lambda>e. kind e \<noteq> Lock) es"
      using es(2) by (auto simp: list_all_iff)
    have "trace w' = trace w2 \<or> trace w' = trace w2 @ [Rollback] \<or> trace w' = trace w2 @ [Commit]"
      using ran(4,5) by (cases "supportsTransactionalDdl env")
        (auto split: sum.splits option.splits)
    then obtain zs where zs: "trace w' = trace w2 @ zs" "list_all (\<lambda>e. kind e \<noteq> Lock) zs"
      by (elim disjE) (auto intro: exI [of _ "[]"])
    have "lockReleased ((bs @ [Begin ?h]) @ AcquireLock ?h # es @ ReleaseLock ?h # zs)"
      using bs(2) q zs(2) by (intro lockReleased_scope) simp_all
    moreover have "trace w' = trace w @ ((bs @ [Begin ?h]) @ AcquireLock ?h # es @ ReleaseLock ?h # zs)"
      using bs(1) es(1) zs(1) by simp
    ultimately show ?thesis by blast
  qed
  then show ?thesis by (auto simp: since_def)
qed

text \<open>
  C8. On every exit path from the locked execution scope of every public operation
  (successful completion, planning failure, step-execution failure),
  \<^verbatim>\<open>releaseMigrationLock\<close> is invoked on the same execution context after
  \<^verbatim>\<open>acquireMigrationLock\<close>: whatever the outcome \<open>r\<close> of \<open>run\<close>, its history is the
  acquisition on the handle, planning and step events, then the release on that handle; and in
  the history of every public operation each acquisition is followed by a release on the same
  handle.
\<close>

theorem C8_release_on_every_exit_path:
  "(\<exists>es. trace (snd (run env src getTarget db w)) =
           trace w @ AcquireLock db # es @ [ReleaseLock db] \<and>
         list_all (\<lambda>e. kind e \<noteq> Lock) es) \<and>
   trace (snd (operate env m src w)) = trace w @ since w (snd (operate env m src w)) \<and>
   lockReleased (since w (snd (operate env m src w)))"
proof -
  obtain r w' where rw: "run env src getTarget db w = (r, w')"
    by (cases "run env src getTarget db w")
  from run_trace [OF rw] obtain es where
    "trace w' = trace w @ AcquireLock db # es @ [ReleaseLock db]"
    "list_all (\<lambda>e. kind e = Planning \<or> kind e = Step) es" by auto
  moreover from this(2) have "list_all (\<lambda>e. kind e \<noteq> Lock) es" by (auto simp: list_all_iff)
  ultimately have 1: "\<exists>es. trace (snd (run env src getTarget db w)) =
           trace w @ AcquireLock db # es @ [ReleaseLock db] \<and>
         list_all (\<lambda>e. kind e \<noteq> Lock) es" using rw by auto
  obtain r2 w2 where "migrate env src (targetOf m) w = (r2, w2)"
    by (cases "migrate env src (targetOf m) w")
  from migrate_lockReleased [OF this] this have
    "trace (snd (operate env m src w)) = trace w @ since w (snd (operate env m src w)) \<and>
     lockReleased (since w (snd (operate env m src w)))"
    by (simp add: operate_migrate)
  with 1 show ?thesis by blast
qed


theorem C8_release_on_every_exit_path_witness:
  "lockReleased (since fresh (snd (operate (calmEnv False) ToLatest abc fresh))) \<and>
   AcquireLock Connection \<in> set (since fresh (snd (operate (calmEnv False) ToLatest abc fresh))) \<and>
   ReleaseLock Connection \<in> set (since fresh (snd (operate (calmEnv False) ToLatest abc fresh)))"
proof -
  have "lockReleased (since fresh (snd (operate (calmEnv False) ToLatest abc fresh)))"
    using C8_release_on_every_exit_path [of "calmEnv False" abc targetLatest Connection fresh ToLatest]
    by blast
  moreover have "AcquireLock Connection \<in>
      set (since fresh (snd (operate (calmEnv False) ToLatest abc fresh)))"
    by code_simp
  moreover have "ReleaseLock Connection \<in>
      set (since fresh (snd (operate (calmEnv False) ToLatest abc fresh)))"
    by code_simp
  ultimately show ?thesis by blast
qed

subsection \<open>Public operations that execute no step\<close>

lemma calm_calmEnv [simp]: "calm (calmEnv tx)"
  by (simp add: calm_def calmEnv_def ensureMigrationTablesExists_def
      ensureMigrationTableExists_def ensureMigrationLockTableExists_def
      ensureLockRowExists_def doesTableExists_def doesLockRowExists_def)

lemma since_self [simp]: "since w w = []"
  by (simp add: since_def)

lemma since_emit [simp]: "since w (emit e w) = [e]"
  by (simp add: since_def)

lemma since_grows: "grows P w w' \<Longrightarrow> trace w' = trace w @ since w w' \<and> list_all P (since w w')"
  by (auto simp: grows_iff since_def)

lemma growsI: "trace w' = trace w @ es \<Longrightarrow> list_all P es \<Longrightarrow> grows P w w'"
  by (auto simp: grows_iff)

lemma migrate_idle:
  assumes m: "migrate env src gt w = (r, w')"
    and idle: "\<And>h v x v'. ledger v = ledger w \<Longrightarrow> user v = user w \<Longrightarrow>
        run_try env src gt h v = (x, v') \<Longrightarrow>
        P x \<and> ledger v' = ledger v \<and> user v' = user v \<and> grows Q v v'"
  shows "ledger w' = ledger w \<and> user w' = user w \<and>
         grows (\<lambda>e. Q e \<or> kind e = Bootstrap \<or> kind e = Context \<or> kind e = Lock) w w' \<and>
         (planningFailure r \<or> (\<exists>x. P x \<and> r = settle x))"
  using m
proof (cases rule: migrate_cases)
  case (boot e w0)
  from ensureMigrationTablesExists_frame [OF boot(1)] boot(2,3) show ?thesis
    by (auto simp: planningFailure_def elim: grows_mono)
next
  case (reserve e w0)
  from ensureMigrationTablesExists_frame [OF reserve(1)] reserve(3,4) show ?thesis
    by (auto simp: planningFailure_def intro!: grows_emit elim: grows_mono)
next
  case (ran w0 x w2)
  let ?R = "\<lambda>e. Q e \<or> kind e = Bootstrap \<or> kind e = Context \<or> kind e = Lock"
  let ?h = "handle env"
  let ?v = "emit (Begin ?h) w0"
  note f = ensureMigrationTablesExists_frame [OF ran(1)]
  have gv: "grows ?R w ?v" using f(3) by (auto intro!: grows_emit elim: grows_mono)
  obtain x1 v1 where rt: "run_try env src gt ?h ?v = (x1, v1)"
    by (cases "run_try env src gt ?h ?v")
  from idle [OF _ _ rt] f have i: "P x1" "ledger v1 = ledger w" "user v1 = user w" "grows Q ?v v1"
    by simp_all
  from rt ran(3) have w2: "w2 = emit (ReleaseLock ?h) v1"
    and x: "x = (case releaseMigrationLock env (trace v1) of
                   Some e \<Rightarrow> Inl (Plain e) | None \<Rightarrow> x1)"
    by (auto simp: run_def split: option.splits)
  have g2: "grows ?R w w2"
    unfolding w2 using i(4) gv by (auto intro!: grows_emit elim: grows_trans grows_mono)
  have db2: "ledger w2 = ledger w" "user w2 = user w" using w2 i by simp_all
  have px: "planningFailure (settle x) \<or> (\<exists>y. P y \<and> settle x = settle y)"
    using x i(1) by (auto simp: planningFailure_def settle_def split: option.splits)
  show ?thesis
  proof (cases "supportsTransactionalDdl env")
    case False
    with ran(4) g2 db2 px show ?thesis by auto
  next
    case True
    note tx = ran(5) [OF True]
    show ?thesis
    proof (cases x)
      case (Inl t)
      with tx g2 db2 px f show ?thesis by (auto intro!: grows_emit)
    next
      case (Inr rs)
      show ?thesis
      proof (cases "commitFails env (trace w2)")
        case None
        with tx Inr g2 db2 px show ?thesis by (auto intro!: grows_emit simp: settle_def)
      next
        case (Some e)
        with tx Inr g2 db2 f show ?thesis
          by (auto intro!: grows_emit simp: planningFailure_def)
      qed
    qed
  qed
qed

lemma getState_select:
  assumes "selectFails env (trace v) = None"
  shows "getState env src v =
     (case resolveMigrations env src of
        Inl e \<Rightarrow> (Inl e, v)
      | Inr ms \<Rightarrow>
          (case ensureMigrationsNotCorrupted ms (sort_key (collation env) (map fst (ledger v))) of
             Some e \<Rightarrow> (Inl e, emit SelectLedger v)
           | None \<Rightarrow>
               (Inr \<lparr>migrations = ms,
                     currentIndex =
                       findIndex (\<lambda>it. Some (name it) = getLast (sort_key (collation env) (map fst (ledger v)))) ms\<rparr>,
                emit SelectLedger v)))"
  using assms by (simp add: getState_def getExecutedMigrations_def split: sum.splits)

lemma getState_corrupt:
  assumes "resolveMigrations env src = Inr ms"
    and "\<not> prefix (sort_key (collation env) (map fst (ledger v))) (map name ms)"
  shows "\<exists>e. fst (getState env src v) = Inl e"
proof (cases "selectFails env (trace v)")
  case (Some e)
  with assms(1) show ?thesis by (simp add: getState_def getExecutedMigrations_def)
next
  case None
  from assms(2) have "ensureMigrationsNotCorrupted ms (sort_key (collation env) (map fst (ledger v))) \<noteq> None"
    by (simp add: ensure_None_iff)
  with assms(1) None show ?thesis by (auto simp: getState_select)
qed

lemma run_try_unplanned:
  assumes "run_try env src gt h v = (x, v')"
    and "acquireMigrationLock env (trace v) \<noteq> None \<or>
         (\<exists>e. fst (getState env src (emit (AcquireLock h) v)) = Inl e)"
  shows "(\<exists>e. x = Inl (Plain e)) \<and> ledger v' = ledger v \<and> user v' = user v \<and>
         grows (\<lambda>e. e = AcquireLock h \<or> e = SelectLedger) v v'"
proof (cases "acquireMigrationLock env (trace v)")
  case (Some e)
  with assms(1) show ?thesis by (auto simp: run_try_def growsI)
next
  case None
  with assms(2) obtain e where e: "fst (getState env src (emit (AcquireLock h) v)) = Inl e"
    by auto
  obtain s v1 where gs: "getState env src (emit (AcquireLock h) v) = (s, v1)"
    by (cases "getState env src (emit (AcquireLock h) v)")
  from getState_frame [OF gs] have "v1 = emit (AcquireLock h) v \<or>
      v1 = emit SelectLedger (emit (AcquireLock h) v)" .
  moreover from e gs assms(1) None have "x = Inl (Plain e)" "v' = v1"
    by (simp_all add: run_try_def)
  ultimately show ?thesis by (auto simp: growsI)
qed

lemma migrate_calm:
  assumes "calm env" and "migrate env src gt w = (r, w')"
  obtains v x v' where "ledger v = ledger w" and "user v = user w"
    and "grows (\<lambda>e. kind e = Bootstrap \<or> kind e = Context) w v"
    and "run_try env src gt (handle env) v = (x, v')"
    and "r = settle x"
    and "ledger w' = (if supportsTransactionalDdl env \<and> isl x then ledger w else ledger v')"
    and "user w' = (if supportsTransactionalDdl env \<and> isl x then user w else user v')"
    and "\<exists>post. trace w' = trace v' @ ReleaseLock (handle env) # post \<and>
           list_all (\<lambda>e. kind e = Context) post"
  using assms(2)
proof (cases rule: migrate_cases)
  case (boot e w0)
  with assms(1) have False by (auto simp: calm_def dest: spec [of _ w])
  then show ?thesis ..
next
  case (reserve e w0)
  with assms(1) have False by (simp add: calm_def)
  then show ?thesis ..
next
  case (ran w0 x w2)
  let ?h = "handle env"
  let ?v = "emit (Begin ?h) w0"
  note f = ensureMigrationTablesExists_frame [OF ran(1)]
  have gv: "grows (\<lambda>e. kind e = Bootstrap \<or> kind e = Context) w ?v"
    using f(3) by (auto intro!: grows_emit elim: grows_mono)
  obtain x1 v1 where rt: "run_try env src gt ?h ?v = (x1, v1)"
    by (cases "run_try env src gt ?h ?v")
  from rt ran(3) assms(1) have w2: "w2 = emit (ReleaseLock ?h) v1" and x: "x = x1"
    by (auto simp: run_def calm_def split: option.splits)
  have c: "commitFails env (trace w2) = None" using assms(1) by (simp add: calm_def)
  show ?thesis
  proof (rule that [OF _ _ gv rt])
    show "ledger ?v = ledger w" "user ?v = user w" using f by simp_all
    show "r = settle x1"
      using ran(4,5) c x by (cases "supportsTransactionalDdl env")
        (auto simp: settle_def split: sum.splits)
    show "ledger w' = (if supportsTransactionalDdl env \<and> isl x1 then ledger w else ledger v1)"
      using ran(4,5) c x w2 f by (cases "supportsTransactionalDdl env")
        (auto split: sum.splits)
    show "user w' = (if supportsTransactionalDdl env \<and> isl x1 then user w else user v1)"
      using ran(4,5) c x w2 f by (cases "supportsTransactionalDdl env")
        (auto split: sum.splits)
    have "trace w' = trace v1 @ [ReleaseLock ?h] \<or>
          trace w' = trace v1 @ [ReleaseLock ?h, Rollback] \<or>
          trace w' = trace v1 @ [ReleaseLock ?h, Commit]"
      using ran(4,5) c x w2 by (cases "supportsTransactionalDdl env")
        (auto split: sum.splits)
    then show "\<exists>post. trace w' = trace v1 @ ReleaseLock ?h # post \<and>
           list_all (\<lambda>e. kind e = Context) post"
      by auto
  qed
qed

subsection \<open>The paths through the locked scope\<close>

lemma run_try_cases [consumes 1, case_names lock plan empty target noop down up]:
  assumes "run_try env src gt h v = (x, v')"
  obtains
    (lock) e where "acquireMigrationLock env (trace v) = Some e"
      and "x = Inl (Plain e)" and "v' = emit (AcquireLock h) v"
  | (plan) e where "acquireMigrationLock env (trace v) = None"
      and "getState env src (emit (AcquireLock h) v) = (Inl e, v')" and "x = Inl (Plain e)"
  | (empty) st where "acquireMigrationLock env (trace v) = None"
      and "getState env src (emit (AcquireLock h) v) = (Inr st, v')"
      and "migrations st = []" and "x = Inr noResults"
  | (target) st v1 e where "acquireMigrationLock env (trace v) = None"
      and "getState env src (emit (AcquireLock h) v) = (Inr st, v1)"
      and "migrations st \<noteq> []" and "gt st = Inl e"
      and "x = Inl (Plain e)" and "v' = emit GetTarget v1"
  | (noop) st v1 where "acquireMigrationLock env (trace v) = None"
      and "getState env src (emit (AcquireLock h) v) = (Inr st, v1)"
      and "migrations st \<noteq> []" and "gt st = Inr None \<or> gt st = Inr (Some (currentIndex st))"
      and "x = Inr noResults" and "v' = emit GetTarget v1"
  | (down) st v1 t where "acquireMigrationLock env (trace v) = None"
      and "getState env src (emit (AcquireLock h) v) = (Inr st, v1)"
      and "migrations st \<noteq> []" and "gt st = Inr (Some t)" and "t < currentIndex st"
      and "migrateDown_private env st t (emit GetTarget v1) = (x, v')"
  | (up) st v1 t where "acquireMigrationLock env (trace v) = None"
      and "getState env src (emit (AcquireLock h) v) = (Inr st, v1)"
      and "migrations st \<noteq> []" and "gt st = Inr (Some t)" and "t > currentIndex st"
      and "migrateUp_private env st t (emit GetTarget v1) = (x, v')"
proof (cases "acquireMigrationLock env (trace v)")
  case (Some e)
  with assms show ?thesis by (intro lock [of e]) (simp_all add: run_try_def)
next
  case None
  obtain s v1 where gs: "getState env src (emit (AcquireLock h) v) = (s, v1)"
    by (cases "getState env src (emit (AcquireLock h) v)")
  show ?thesis
  proof (cases s)
    case (Inl e)
    with assms None gs show ?thesis by (intro plan [of e]) (simp_all add: run_try_def)
  next
    case (Inr st)
    show ?thesis
    proof (cases "migrations st = []")
      case True
      with assms None gs Inr show ?thesis by (intro empty [of st]) (simp_all add: run_try_def)
    next
      case False
      show ?thesis
      proof (cases "gt st")
        case (Inl e)
        with assms None gs Inr False show ?thesis
          by (intro target [of st v1 e]) (simp_all add: run_try_def)
      next
        case tgt: (Inr topt)
        show ?thesis
        proof (cases topt)
          case None2: None
          with assms None gs Inr False tgt show ?thesis
            by (intro noop [of st v1]) (simp_all add: run_try_def)
        next
          case (Some t)
          consider "t < currentIndex st" | "t > currentIndex st" | "t = currentIndex st"
            by linarith
          then show ?thesis
          proof cases
            case 1
            with assms None gs Inr False tgt Some show ?thesis
              by (intro down [of st v1 t]) (simp_all add: run_try_def)
          next
            case 2
            with assms None gs Inr False tgt Some show ?thesis
              by (intro up [of st v1 t]) (simp_all add: run_try_def)
          next
            case 3
            with assms None gs Inr False tgt Some show ?thesis
              by (intro noop [of st v1]) (simp_all add: run_try_def)
          qed
        qed
      qed
    qed
  qed
qed

lemma getState_Inr:
  assumes "getState env src v = (Inr st, v1)"
  shows "resolveMigrations env src = Inr (migrations st)"
    and "v1 = emit SelectLedger v"
    and "selectFails env (trace v) = None"
    and "prefix (sort_key (collation env) (map fst (ledger v))) (map name (migrations st))"
    and "currentIndex st =
           findIndex (\<lambda>it. Some (name it) = getLast (sort_key (collation env) (map fst (ledger v)))) (migrations st)"
proof -
  from assms obtain ms where ms: "resolveMigrations env src = Inr ms"
    by (cases "resolveMigrations env src") (simp_all add: getState_def)
  from assms ms have sel: "selectFails env (trace v) = None"
    by (cases "selectFails env (trace v)") (simp_all add: getState_def getExecutedMigrations_def)
  from assms ms have ok: "ensureMigrationsNotCorrupted ms (sort_key (collation env) (map fst (ledger v))) = None"
    by (cases "ensureMigrationsNotCorrupted ms (sort_key (collation env) (map fst (ledger v)))")
      (simp_all add: getState_select [OF sel])
  from assms ms ok have st: "st = \<lparr>migrations = ms, currentIndex =
      findIndex (\<lambda>it. Some (name it) = getLast (sort_key (collation env) (map fst (ledger v)))) ms\<rparr>"
    and v1: "v1 = emit SelectLedger v"
    by (simp_all add: getState_select [OF sel])
  show "resolveMigrations env src = Inr (migrations st)" using ms st by simp
  show "v1 = emit SelectLedger v" by (rule v1)
  show "selectFails env (trace v) = None" by (rule sel)
  show "prefix (sort_key (collation env) (map fst (ledger v))) (map name (migrations st))"
    using ok st by (simp add: ensure_None_iff)
  show "currentIndex st =
           findIndex (\<lambda>it. Some (name it) = getLast (sort_key (collation env) (map fst (ledger v)))) (migrations st)"
    using st by simp
qed

lemma getState_world:
  assumes "getState env src v = (s, v1)"
  shows "ledger v1 = ledger v" and "user v1 = user v"
    and "grows (\<lambda>e. e = SelectLedger) v v1"
  using getState_frame [OF assms] by (auto simp: growsI)

lemma ensure_empty:
  "ex \<noteq> [] \<Longrightarrow> ensureMigrationsNotCorrupted [] ex = Some (CorruptedMissing (hd ex))"
  by (cases ex) (simp_all add: ensureMigrationsNotCorrupted_def)

subsection \<open>An empty migration list\<close>

lemma run_try_empty:
  assumes "resolveMigrations env src = Inr []" and "run_try env src gt h v = (x, v')"
  shows "(x = Inr noResults \<or> (\<exists>e. x = Inl (Plain e))) \<and> ledger v' = ledger v \<and>
         user v' = user v \<and> grows (\<lambda>e. kind e = Lock \<or> e = SelectLedger) v v'"
  using assms(2)
proof (cases rule: run_try_cases)
  case (lock e)
  then show ?thesis by (simp add: growsI)
next
  case (plan e)
  note gw = getState_world [OF plan(2)]
  from gw(3) have "grows (\<lambda>e. kind e = Lock \<or> e = SelectLedger) (emit (AcquireLock h) v) v'"
    by (rule grows_mono) simp
  then have "grows (\<lambda>e. kind e = Lock \<or> e = SelectLedger) v v'"
    by (rule grows_emit_left) simp
  with gw(1,2) plan(3) show ?thesis by simp
next
  case (empty st)
  note gw = getState_world [OF empty(2)]
  from gw(3) have "grows (\<lambda>e. kind e = Lock \<or> e = SelectLedger) (emit (AcquireLock h) v) v'"
    by (rule grows_mono) simp
  then have "grows (\<lambda>e. kind e = Lock \<or> e = SelectLedger) v v'"
    by (rule grows_emit_left) simp
  with gw(1,2) empty(4) show ?thesis by simp
next
  case (target st v1 e)
  with getState_Inr(1) [OF target(2)] assms(1) show ?thesis by simp
next
  case (noop st v1)
  with getState_Inr(1) [OF noop(2)] assms(1) show ?thesis by simp
next
  case (down st v1 t)
  with getState_Inr(1) [OF down(2)] assms(1) show ?thesis by simp
next
  case (up st v1 t)
  with getState_Inr(1) [OF up(2)] assms(1) show ?thesis by simp
qed

lemma migrate_empty:
  assumes "resolveMigrations env src = Inr []" and op: "migrate env src gt w = (r, w')"
  shows "GetTarget \<notin> set (since w w') \<and>
         list_all (\<lambda>e. kind e \<noteq> Step) (since w w') \<and>
         trace w' = trace w @ since w w' \<and>
         ledger w' = ledger w \<and>
         user w' = user w \<and>
         (calm env \<longrightarrow>
            r = (if ledger w = [] then noResults
                 else \<lparr>error = Some (CorruptedMissing (hd (sort_key (collation env) (map fst (ledger w))))),
                       results = None\<rparr>))"
proof -
  have idle: "\<And>h v x v'. ledger v = ledger w \<Longrightarrow> user v = user w \<Longrightarrow>
        run_try env src gt h v = (x, v') \<Longrightarrow>
        (x = Inr noResults \<or> (\<exists>e. x = Inl (Plain e))) \<and> ledger v' = ledger v \<and>
        user v' = user v \<and> grows (\<lambda>e. kind e = Lock \<or> e = SelectLedger) v v'"
  proof -
    fix h v x v'
    assume "run_try env src gt h v = (x, v')"
    from run_try_empty [OF assms(1) this]
    show "(x = Inr noResults \<or> (\<exists>e. x = Inl (Plain e))) \<and> ledger v' = ledger v \<and>
        user v' = user v \<and> grows (\<lambda>e. kind e = Lock \<or> e = SelectLedger) v v'" .
  qed
  from migrate_idle [OF op idle] have db: "ledger w' = ledger w" "user w' = user w"
    and g: "grows (\<lambda>e. (kind e = Lock \<or> e = SelectLedger) \<or> kind e = Bootstrap \<or>
                      kind e = Context \<or> kind e = Lock) w w'"
    by simp_all
  from g have "grows (\<lambda>e. e \<noteq> GetTarget \<and> kind e \<noteq> Step) w w'"
    by (rule grows_mono) auto
  from since_grows [OF this] have tr: "trace w' = trace w @ since w w'"
    "GetTarget \<notin> set (since w w')" "list_all (\<lambda>e. kind e \<noteq> Step) (since w w')"
    by (auto simp: list_all_iff)
  have calm: "r = (if ledger w = [] then noResults
               else \<lparr>error = Some (CorruptedMissing (hd (sort_key (collation env) (map fst (ledger w))))),
                     results = None\<rparr>)" if "calm env"
    using that op
  proof (cases rule: migrate_calm)
    case (1 v x v')
    let ?v0 = "emit (AcquireLock (handle env)) v"
    have sel: "selectFails env (trace ?v0) = None" and
      acq: "acquireMigrationLock env (trace v) = None"
      using that by (simp_all add: calm_def)
    show ?thesis
    proof (cases "ledger w = []")
      case True
      then have "getState env src ?v0 =
          (Inr \<lparr>migrations = [], currentIndex = - 1\<rparr>, emit SelectLedger ?v0)"
        using assms(1) 1(1)
        by (simp add: getState_select [OF sel] ensureMigrationsNotCorrupted_def
            checkOrder.simps)
      with 1(4) acq have "x = Inr noResults" by (simp add: run_try_def)
      with 1(5) True show ?thesis by (simp add: settle_def)
    next
      case False
      then have ne: "sort_key (collation env) (map fst (ledger w)) \<noteq> []"
        by (metis length_0_conv length_map length_sort)
      have "getState env src ?v0 =
          (Inl (CorruptedMissing (hd (sort_key (collation env) (map fst (ledger w))))), emit SelectLedger ?v0)"
        by (simp add: getState_select [OF sel] assms(1) 1(1) ensure_empty [OF ne])
      with 1(4) acq have "x = Inl (Plain (CorruptedMissing (hd (sort_key (collation env) (map fst (ledger w))))))"
        by (simp add: run_try_def)
      with 1(5) False show ?thesis by (simp add: settle_def)
    qed
  qed
  from db tr calm show ?thesis by simp
qed

subsection \<open>The example sources\<close>

lemma resolve_abc:
  "\<exists>M. resolveMigrations (calmEnv tx) abc = Inr M \<and> map name M = [''a'', ''b'', ''c'']"
  by (simp add: resolveMigrations_def abc_def comp_def)

lemma resolve_noSource: "resolveMigrations (calmEnv tx) noSource = Inr []"
  by (simp add: resolveMigrations_def noSource_def)

subsection \<open>The planner when no collaborator fails\<close>

lemma position_of_last:
  assumes "distinct (map name ms)" and "prefix ex (map name ms)"
  shows "findIndex (\<lambda>it. Some (name it) = getLast ex) ms = int (length ex) - 1"
proof (cases "ex = []")
  case True
  then show ?thesis by (simp add: getLast_def findIndex_none)
next
  case False
  from assms(2) obtain zs where zs: "map name ms = ex @ zs" by (auto simp: prefix_def)
  then have len: "length ex \<le> length ms" by (metis length_append length_map le_add1)
  let ?i = "length ex - 1"
  have i: "?i < length ms" using False len by (cases ex) auto
  have "last ex = ex ! ?i" using False by (simp add: last_conv_nth)
  also have "\<dots> = map name ms ! ?i" using False zs by (simp add: nth_append)
  also have "\<dots> = name (ms ! ?i)" using i by simp
  finally have l: "last ex = name (ms ! ?i)" .
  have "findIndex (\<lambda>it. name it = name (ms ! ?i)) ms = int ?i"
    using assms(1) i by (rule findIndex_nth)
  moreover have "int ?i = int (length ex) - 1" using False by (cases ex) auto
  ultimately show ?thesis using False l by (simp add: getLast_def)
qed

lemma getState_position:
  assumes "selectFails env (trace v) = None" and "resolveMigrations env src = Inr ms"
    and "sort_key (collation env) (map fst (ledger v)) = take k (map name ms)" and "k \<le> length ms"
  shows "getState env src v =
           (Inr \<lparr>migrations = ms, currentIndex = int k - 1\<rparr>, emit SelectLedger v)"
proof -
  have pre: "prefix (sort_key (collation env) (map fst (ledger v))) (map name ms)"
    unfolding assms(3) by (rule take_is_prefix)
  then have ok: "ensureMigrationsNotCorrupted ms (sort_key (collation env) (map fst (ledger v))) = None"
    by (simp add: ensure_None_iff)
  have "findIndex (\<lambda>it. Some (name it) = getLast (sort_key (collation env) (map fst (ledger v)))) ms =
      int (length (sort_key (collation env) (map fst (ledger v)))) - 1"
    using resolve_names(2) [OF assms(2)] pre by (rule position_of_last)
  also have "length (sort_key (collation env) (map fst (ledger v))) = k"
    unfolding assms(3) using assms(4) by simp
  finally show ?thesis
    by (simp add: getState_select [OF assms(1)] assms(2) ok)
qed

lemma getState_Inr_position:
  assumes "getState env src v = (Inr st, v1)"
  obtains k where "k \<le> length (migrations st)"
    and "sort_key (collation env) (map fst (ledger v)) = take k (map name (migrations st))"
    and "currentIndex st = int k - 1"
proof -
  note g = getState_Inr [OF assms]
  let ?ex = "sort_key (collation env) (map fst (ledger v))"
  from g(4) obtain zs where zs: "map name (migrations st) = ?ex @ zs"
    by (auto simp: prefix_def)
  then have len: "length ?ex \<le> length (migrations st)"
    by (metis length_append length_map le_add1)
  have tk: "?ex = take (length ?ex) (map name (migrations st))"
    using zs by simp
  have "currentIndex st = int (length ?ex) - 1"
    unfolding g(5) using resolve_names(2) [OF g(1)] g(4) by (rule position_of_last)
  with len tk show thesis by (rule that)
qed

lemma agrees_sort_key:
  assumes "agrees env ns" and "set l \<subseteq> set ns"
  shows "sort_key (collation env) l = sort l"
proof -
  let ?c = "collation env"
  have "sorted (map ?c (sort_key ?c l))" by simp
  then have "sorted_wrt (\<lambda>a b. ?c a \<le> ?c b) (sort_key ?c l)" by (simp add: sorted_wrt_map)
  moreover have "a \<le> b"
    if "a \<in> set (sort_key ?c l)" "b \<in> set (sort_key ?c l)" "?c a \<le> ?c b" for a b
  proof (rule ccontr)
    assume "\<not> a \<le> b"
    then have "b < a" by simp
    moreover from that(1,2) assms(2) have "a \<in> set ns" "b \<in> set ns" by auto
    ultimately have "?c b < ?c a" using assms(1) by (simp add: agrees_def)
    with that(3) show False by simp
  qed
  ultimately have "sorted (sort_key ?c l)" by (rule sorted_wrt_mono_rel [rotated])
  with properties_for_sort [of "sort_key ?c l" l] show ?thesis by simp
qed

lemma sort_completed:
  assumes "sorted names" and "sort l = take k names"
  shows "sort (l @ drop k names) = names"
proof -
  have "mset (l @ drop k names) = mset (sort l) + mset (drop k names)" by simp
  also have "\<dots> = mset (take k names) + mset (drop k names)" unfolding assms(2) ..
  also have "\<dots> = mset names" by (metis append_take_drop_id mset_append)
  finally have "mset names = mset (l @ drop k names)" by simp
  with assms(1) show ?thesis by (simp add: properties_for_sort)
qed

lemma run_try_noop:
  assumes "acquireMigrationLock env (trace v) = None"
    and "getState env src (emit (AcquireLock h) v) = (Inr st, v1)"
    and "gt st = Inr (Some (currentIndex st))"
  shows "fst (run_try env src gt h v) = Inr noResults"
    and "ledger (snd (run_try env src gt h v)) = ledger v"
    and "user (snd (run_try env src gt h v)) = user v"
    and "list_all (\<lambda>e. kind e \<noteq> Step) (since v (snd (run_try env src gt h v)))"
proof -
  note g = getState_Inr(2) [OF assms(2)]
  have "run_try env src gt h v =
      (Inr noResults, if migrations st = [] then v1 else emit GetTarget v1)"
    using assms by (simp add: run_try_def)
  with g show "fst (run_try env src gt h v) = Inr noResults"
    "ledger (snd (run_try env src gt h v)) = ledger v"
    "user (snd (run_try env src gt h v)) = user v"
    "list_all (\<lambda>e. kind e \<noteq> Step) (since v (snd (run_try env src gt h v)))"
    by (simp_all add: since_def)
qed

lemma migrate_calm_noop:
  assumes "calm env" and "resolveMigrations env src = Inr ms"
    and "sort_key (collation env) (map fst (ledger w)) = take k (map name ms)" and "k \<le> length ms"
    and "ms = [] \<or> gt \<lparr>migrations = ms, currentIndex = int k - 1\<rparr> = Inr (Some (int k - 1))"
    and op: "migrate env src gt w = (r, w')"
  shows "r = noResults \<and> ledger w' = ledger w \<and> user w' = user w \<and>
         trace w' = trace w @ since w w' \<and> list_all (\<lambda>e. kind e \<noteq> Step) (since w w')"
  using assms(1) op
proof (cases rule: migrate_calm)
  case (1 v x v')
  let ?h = "handle env"
  let ?v0 = "emit (AcquireLock ?h) v"
  let ?st = "\<lparr>migrations = ms, currentIndex = int k - 1\<rparr>"
  have sel: "selectFails env (trace ?v0) = None" and
    acq: "acquireMigrationLock env (trace v) = None"
    using assms(1) by (simp_all add: calm_def)
  have "sort_key (collation env) (map fst (ledger ?v0)) = take k (map name ms)" using 1(1) assms(3) by simp
  from getState_position [OF sel assms(2) this assms(4)]
  have gs: "getState env src ?v0 = (Inr ?st, emit SelectLedger ?v0)" .
  have rt: "run_try env src gt ?h v =
      (Inr noResults,
       if ms = [] then emit SelectLedger ?v0 else emit GetTarget (emit SelectLedger ?v0))"
    using acq gs assms(5) by (auto simp: run_try_def)
  with 1(4) have x: "x = Inr noResults" and v': "ledger v' = ledger v" "user v' = user v"
    "\<exists>es. trace v' = trace v @ es \<and> list_all (\<lambda>e. kind e \<noteq> Step) es"
    by auto
  from 1(5) x have r: "r = noResults" by (simp add: settle_def)
  from 1(6) 1(1) x v' have l: "ledger w' = ledger w" by simp
  from 1(7) 1(2) x v' have u: "user w' = user w" by simp
  from 1(3) obtain bs where bs: "trace v = trace w @ bs"
    "list_all (\<lambda>e. kind e = Bootstrap \<or> kind e = Context) bs" by (auto simp: grows_iff)
  from v'(3) obtain es where es: "trace v' = trace v @ es" "list_all (\<lambda>e. kind e \<noteq> Step) es"
    by auto
  from 1(8) obtain post where post: "trace w' = trace v' @ ReleaseLock ?h # post"
    "list_all (\<lambda>e. kind e = Context) post" by auto
  have "trace w' = trace w @ (bs @ es @ ReleaseLock ?h # post)"
    using bs(1) es(1) post(1) by simp
  moreover have "list_all (\<lambda>e. kind e \<noteq> Step) (bs @ es @ ReleaseLock ?h # post)"
    using bs(2) es(2) post(2) by (auto simp: list_all_iff)
  ultimately have "grows (\<lambda>e. kind e \<noteq> Step) w w'" by (rule growsI)
  from since_grows [OF this] r l u show ?thesis by simp
qed

subsection \<open>Outcome of the locked scope\<close>

lemma resolve_ac:
  "\<exists>M. resolveMigrations (calmEnv tx) ac = Inr M \<and> map name M = [''a'', ''c'']"
  by (simp add: resolveMigrations_def ac_def comp_def)

lemma run_try_outcome:
  assumes "run_try env src gt h v = (x, v')"
  shows "case x of
           Inr rset \<Rightarrow> completed rset
         | Inl (MigrationResultSetError rset) \<Rightarrow> stepFailure rset
         | Inl (Plain e) \<Rightarrow> ledger v' = ledger v \<and> user v' = user v \<and>
             grows (\<lambda>e. kind e = Lock \<or> kind e = Planning) v v'"
  using assms
proof (cases rule: run_try_cases)
  case (lock e)
  then show ?thesis by (simp add: growsI)
next
  case (plan e)
  note gw = getState_world [OF plan(2)]
  from gw(3) have "grows (\<lambda>e. kind e = Lock \<or> kind e = Planning) (emit (AcquireLock h) v) v'"
    by (rule grows_mono) simp
  then have "grows (\<lambda>e. kind e = Lock \<or> kind e = Planning) v v'"
    by (rule grows_emit_left) simp
  with gw(1,2) plan(3) show ?thesis by simp
next
  case (empty st)
  then show ?thesis by simp
next
  case (target st v1 e)
  note gw = getState_world [OF target(2)]
  from gw(3) have "grows (\<lambda>e. kind e = Lock \<or> kind e = Planning) (emit (AcquireLock h) v) v1"
    by (rule grows_mono) simp
  then have "grows (\<lambda>e. kind e = Lock \<or> kind e = Planning) v v1"
    by (rule grows_emit_left) simp
  then have "grows (\<lambda>e. kind e = Lock \<or> kind e = Planning) v (emit GetTarget v1)"
    by (rule grows_emit) simp
  with gw(1,2) target(5,6) show ?thesis by simp
next
  case (noop st v1)
  then show ?thesis by simp
next
  case (down st v1 t)
  note gw = getState_world [OF down(2)]
  from gw(3) have "grows (\<lambda>e. kind e = Lock \<or> kind e = Planning) (emit (AcquireLock h) v) v1"
    by (rule grows_mono) simp
  then have "grows (\<lambda>e. kind e = Lock \<or> kind e = Planning) v v1"
    by (rule grows_emit_left) simp
  then have g: "grows (\<lambda>e. kind e = Lock \<or> kind e = Planning) v (emit GetTarget v1)"
    by (rule grows_emit) simp
  from migrateDown_private_outcome [OF down(6)] gw(1,2) g show ?thesis
    by (auto split: sum.splits thrown.splits)
next
  case (up st v1 t)
  note gw = getState_world [OF up(2)]
  from gw(3) have "grows (\<lambda>e. kind e = Lock \<or> kind e = Planning) (emit (AcquireLock h) v) v1"
    by (rule grows_mono) simp
  then have "grows (\<lambda>e. kind e = Lock \<or> kind e = Planning) v v1"
    by (rule grows_emit_left) simp
  then have g: "grows (\<lambda>e. kind e = Lock \<or> kind e = Planning) v (emit GetTarget v1)"
    by (rule grows_emit) simp
  from migrateUp_private_outcome [OF up(6)] gw(1,2) g show ?thesis
    by (auto split: sum.splits thrown.splits)
qed

lemma latest_completes_ledger:
  assumes "calm env" and op: "migrate env src targetLatest w = (r, w')" and "error r = None"
    and rs: "resolveMigrations env src = Inr ms" and ag: "agrees env (map name ms)"
  shows "sort_key (collation env) (map fst (ledger w')) = map name ms"
  using assms(1) op
proof (cases rule: migrate_calm)
  case (1 v x v')
  note out = run_try_outcome [OF 1(4)]
  from assms(3) 1(5) out obtain rset where x: "x = Inr rset"
    by (cases x) (auto simp: settle_def stepFailure_def split: thrown.splits)
  with 1(6) have l: "ledger w' = ledger v'" by simp
  from 1(4) show ?thesis
  proof (cases rule: run_try_cases)
    case (lock e)
    with x show ?thesis by simp
  next
    case (plan e)
    with x show ?thesis by simp
  next
    case (empty st)
    note g = getState_Inr [OF empty(2)] getState_world [OF empty(2)]
    from g(4) empty(3) have "sort_key (collation env) (map fst (ledger v')) = []" using g(6) by simp
    with g(1) empty(3) l rs show ?thesis by simp
  next
    case (target st v1 e)
    with x show ?thesis by simp
  next
    case (noop st v1)
    note g = getState_Inr [OF noop(2)] getState_world [OF noop(2)]
    from noop(2) obtain k where k: "k \<le> length (migrations st)"
      "sort_key (collation env) (map fst (ledger (emit (AcquireLock (handle env)) v))) =
         take k (map name (migrations st))"
      "currentIndex st = int k - 1"
      by (rule getState_Inr_position)
    from noop(4) k(3) have "k = length (migrations st)" by (simp add: targetLatest_def)
    with k(2) have "sort_key (collation env) (map fst (ledger v)) = map name (migrations st)" by simp
    moreover have "ledger v' = ledger v" using noop(6) g(6) by simp
    ultimately show ?thesis using g(1) l rs by simp
  next
    case (down st v1 t)
    from down(2) obtain k where k: "k \<le> length (migrations st)"
      "currentIndex st = int k - 1"
      by (rule getState_Inr_position)
    with down(4,5) have False by (simp add: targetLatest_def)
    then show ?thesis ..
  next
    case (up st v1 t)
    let ?ms = "migrations st"
    note g = getState_Inr [OF up(2)] getState_world [OF up(2)]
    from up(2) obtain k where k: "k \<le> length ?ms"
      "sort_key (collation env) (map fst (ledger (emit (AcquireLock (handle env)) v))) = take k (map name ?ms)"
      "currentIndex st = int k - 1"
      by (rule getState_Inr_position)
    from up(4) have t: "t = int (length ?ms) - 1" by (simp add: targetLatest_def)
    have pl: "planUp ?ms (currentIndex st + 1) t [] =
        Inr ([] @ map (planned Up) (drop (nat (currentIndex st + 1)) (take (nat (t + 1)) ?ms)))"
      using k(3) t by (intro planUp_eq) simp_all
    have rg: "drop (nat (currentIndex st + 1)) (take (nat (t + 1)) ?ms) = drop k ?ms"
      using k(3) t by simp
    obtain y v2 where y: "upRun env ?ms [] (map (planned Up) (drop k ?ms)) (emit GetTarget v1) = (y, v2)"
      by (cases "upRun env ?ms [] (map (planned Up) (drop k ?ms)) (emit GetTarget v1)")
    from up(6) x pl rg y obtain rs' where y': "y = Inr rs'" and v2: "v2 = v'"
      by (cases y) (auto simp: migrateUp_private_def execUp_upRun)
    from upRun_Inr [OF y [unfolded y']] v2
    have "map fst (ledger v') =
        map fst (ledger (emit GetTarget v1)) @ map migrationName (map (planned Up) (drop k ?ms))"
      by simp
    also have "map migrationName (map (planned Up) (drop k ?ms)) = drop k (map name ?ms)"
      by (simp add: drop_map comp_def)
    also have "ledger (emit GetTarget v1) = ledger v" using g(6) by simp
    finally have eq: "map fst (ledger v') = map fst (ledger v) @ drop k (map name ?ms)" .
    from ag g(1) rs have a: "agrees env (map name ?ms)" by simp
    have rd: "sort_key (collation env) (map fst (ledger v)) = take k (map name ?ms)"
      using k(2) by simp
    have "set (map fst (ledger v)) = set (take k (map name ?ms))"
      using rd by (metis set_sort)
    then have sub: "set (map fst (ledger v)) \<subseteq> set (map name ?ms)"
      by (metis set_take_subset)
    have sub2: "set (map fst (ledger v) @ drop k (map name ?ms)) \<subseteq> set (map name ?ms)"
      using sub set_drop_subset [of k "map name ?ms"] by simp
    have "sort (map fst (ledger v)) = take k (map name ?ms)"
      using agrees_sort_key [OF a sub] rd by simp
    with resolve_names(3) [OF g(1)]
    have "sort (map fst (ledger v) @ drop k (map name ?ms)) = map name ?ms"
      by (rule sort_completed)
    with agrees_sort_key [OF a sub2] eq
    have "sort_key (collation env) (map fst (ledger v')) = map name ?ms" by simp
    then show ?thesis using g(1) l rs by simp
  qed
qed

subsection \<open>The names a run reports\<close>

lemma names_preserved_up:
  "map migrationName (map (succeeded Up) pre @ failed Up q # post) =
     map migrationName (pre @ q # post)"
  by (simp add: comp_def)

lemma migrateUp_private_names:
  assumes "migrateUp_private env st t w = (x, w')"
    and "- 1 \<le> currentIndex st" and "t < int (length (migrations st))"
  shows "\<exists>rs. results (settle x) = Some rs \<and>
           map migrationName rs =
             map name (drop (nat (currentIndex st + 1)) (take (nat (t + 1)) (migrations st))) \<and>
           list_all (\<lambda>p. direction p = Up) rs"
proof -
  let ?ms = "migrations st"
  let ?range = "drop (nat (currentIndex st + 1)) (take (nat (t + 1)) ?ms)"
  let ?rs0 = "map (planned Up) ?range"
  have pl: "planUp ?ms (currentIndex st + 1) t [] = Inr ([] @ ?rs0)"
    using assms(2,3) by (intro planUp_eq) simp_all
  obtain y v2 where y: "upRun env ?ms [] ?rs0 w = (y, v2)"
    by (cases "upRun env ?ms [] ?rs0 w")
  from assms(1) pl y have x: "x = (case y of Inl th \<Rightarrow> Inl th
      | Inr rs' \<Rightarrow> Inr \<lparr>error = None, results = Some rs'\<rparr>)"
    by (auto simp: migrateUp_private_def execUp_upRun split: sum.splits)
  have nm: "map migrationName ?rs0 = map name ?range" by (simp add: comp_def)
  have dir: "\<And>p. p \<in> set ?rs0 \<Longrightarrow> direction p = Up" by auto
  have found: "\<forall>p \<in> set ?rs0. find (\<lambda>it. name it = migrationName p) ?ms \<noteq> None"
  proof
    fix p assume "p \<in> set ?rs0"
    then obtain m where m: "m \<in> set ?range" "p = planned Up m" by auto
    from m(1) have "m \<in> set ?ms"
      by (auto dest!: in_set_dropD in_set_takeD)
    from find_member [OF this] m(2)
    show "find (\<lambda>it. name it = migrationName p) ?ms \<noteq> None" by simp
  qed
  show ?thesis
  proof (cases y)
    case (Inr rs')
    with upRun_Inr [of env ?ms "[]" ?rs0 w rs' v2] y
    have "rs' = map (succeeded Up) ?rs0" by simp
    with x Inr nm show ?thesis
      by (simp add: settle_def comp_def list_all_iff)
  next
    case (Inl th)
    show ?thesis
    proof (cases th)
      case (Plain e)
      with Inl y upRun_Plain [of env ?ms "[]" ?rs0 w e v2]
      have "\<exists>p \<in> set ?rs0. find (\<lambda>it. name it = migrationName p) ?ms = None"
        by simp
      with found have False by blast
      then show ?thesis ..
    next
      case (MigrationResultSetError rset)
      with Inl y upRun_failed [of env ?ms "[]" ?rs0 w rset v2]
      obtain e pre q post where *: "?rs0 = pre @ q # post"
        "rset = \<lparr>error = Some e, results = Some (map (succeeded Up) pre @ failed Up q # post)\<rparr>"
        by auto
      have "map migrationName (map (succeeded Up) pre @ failed Up q # post) = map name ?range"
        unfolding names_preserved_up *(1) [symmetric] by (rule nm)
      moreover have "list_all (\<lambda>p. direction p = Up) (map (succeeded Up) pre @ failed Up q # post)"
        using dir *(1) by (auto simp: list_all_iff)
      ultimately show ?thesis
        using x Inl MigrationResultSetError *(2) by (simp add: settle_def)
    qed
  qed
qed

lemma names_preserved_down:
  "map migrationName (map (reversed ms) pre @ failed Down q # post) =
     map migrationName (pre @ q # post)"
  by (simp add: comp_def reversed_def)

lemma direction_reversed: "direction p = Down \<Longrightarrow> direction (reversed ms p) = Down"
  by (simp add: reversed_def)

lemma migrateDown_private_names:
  assumes "migrateDown_private env st t w = (x, w')"
    and "- 1 \<le> t" and "currentIndex st < int (length (migrations st))"
  shows "\<exists>rs. results (settle x) = Some rs \<and>
           map migrationName rs =
             map name (rev (drop (nat (t + 1)) (take (nat (currentIndex st + 1)) (migrations st)))) \<and>
           list_all (\<lambda>p. direction p = Down) rs"
proof -
  let ?ms = "migrations st"
  let ?range = "rev (drop (nat (t + 1)) (take (nat (currentIndex st + 1)) ?ms))"
  let ?rs0 = "map (planned Down) ?range"
  have pl: "planDown ?ms (currentIndex st) t [] = Inr ([] @ ?rs0)"
    using assms(2,3) by (intro planDown_eq) simp_all
  obtain y v2 where y: "downRun env ?ms [] ?rs0 w = (y, v2)"
    by (cases "downRun env ?ms [] ?rs0 w")
  from assms(1) pl y have x: "x = (case y of Inl th \<Rightarrow> Inl th
      | Inr rs' \<Rightarrow> Inr \<lparr>error = None, results = Some rs'\<rparr>)"
    by (auto simp: migrateDown_private_def execDown_downRun split: sum.splits)
  have nm: "map migrationName ?rs0 = map name ?range" by (simp add: comp_def)
  have dir: "\<And>p. p \<in> set ?rs0 \<Longrightarrow> direction p = Down" by auto
  have found: "\<forall>p \<in> set ?rs0. find (\<lambda>it. name it = migrationName p) ?ms \<noteq> None"
  proof
    fix p assume "p \<in> set ?rs0"
    then obtain m where m: "m \<in> set ?range" "p = planned Down m" by auto
    from m(1) have "m \<in> set ?ms"
      by (auto dest!: in_set_dropD in_set_takeD)
    from find_member [OF this] m(2)
    show "find (\<lambda>it. name it = migrationName p) ?ms \<noteq> None" by simp
  qed
  show ?thesis
  proof (cases y)
    case (Inr rs')
    with downRun_Inr [of env ?ms "[]" ?rs0 w rs' v2] y
    have "rs' = map (reversed ?ms) ?rs0" by simp
    moreover have "map migrationName (map (reversed ?ms) ?rs0) = map name ?range"
      by (simp add: comp_def reversed_def)
    moreover have "list_all (\<lambda>p. direction p = Down) (map (reversed ?ms) ?rs0)"
      by (simp add: list_all_iff direction_reversed)
    ultimately show ?thesis using x Inr by (simp add: settle_def)
  next
    case (Inl th)
    show ?thesis
    proof (cases th)
      case (Plain e)
      with Inl y downRun_Plain [of env ?ms "[]" ?rs0 w e v2]
      have "\<exists>p \<in> set ?rs0. find (\<lambda>it. name it = migrationName p) ?ms = None"
        by simp
      with found have False by blast
      then show ?thesis ..
    next
      case (MigrationResultSetError rset)
      with Inl y downRun_failed [of env ?ms "[]" ?rs0 w rset v2]
      obtain e pre q post where *: "?rs0 = pre @ q # post"
        "rset = \<lparr>error = Some e,
                 results = Some (map (reversed ?ms) pre @ failed Down q # post)\<rparr>"
        by auto
      have "map migrationName (map (reversed ?ms) pre @ failed Down q # post) = map name ?range"
        unfolding names_preserved_down *(1) [symmetric] by (rule nm)
      moreover have "list_all (\<lambda>p. direction p = Down)
          (map (reversed ?ms) pre @ failed Down q # post)"
        using dir *(1) by (auto simp: list_all_iff direction_reversed)
      ultimately show ?thesis
        using x Inl MigrationResultSetError *(2) by (simp add: settle_def)
    qed
  qed
qed

subsection \<open>Single steps when no collaborator fails\<close>

lemma drop_take_single: "k < length xs \<Longrightarrow> drop k (take (Suc k) xs) = [xs ! k]"
  by (simp add: take_Suc_conv_app_nth)

lemma migrateUp_calm_step:
  assumes "calm env" and "resolveMigrations env src = Inr ms"
    and "sort_key (collation env) (map fst (ledger w)) = take k (map name ms)" and "k < length ms"
    and op: "migrate env src targetUp w = (r, w')"
  shows "\<exists>rs. results r = Some rs \<and> map migrationName rs = [name (ms ! k)] \<and>
           list_all (\<lambda>p. direction p = Up) rs"
  using assms(1) op
proof (cases rule: migrate_calm)
  case (1 v x v')
  let ?h = "handle env"
  let ?v0 = "emit (AcquireLock ?h) v"
  let ?st = "\<lparr>migrations = ms, currentIndex = int k - 1\<rparr>"
  have sel: "selectFails env (trace ?v0) = None" and
    acq: "acquireMigrationLock env (trace v) = None"
    using assms(1) by (simp_all add: calm_def)
  have "sort_key (collation env) (map fst (ledger ?v0)) = take k (map name ms)" using 1(1) assms(3) by simp
  from getState_position [OF sel assms(2) this] assms(4)
  have gs: "getState env src ?v0 = (Inr ?st, emit SelectLedger ?v0)" by simp
  have tg: "targetUp ?st = Inr (Some (int k))"
    using assms(4) by (simp add: targetUp_def min_def)
  have "run_try env src targetUp ?h v =
      migrateUp_private env ?st (int k) (emit GetTarget (emit SelectLedger ?v0))"
    using acq gs tg assms(4) by (auto simp: run_try_def)
  with 1(4) have "migrateUp_private env ?st (int k) (emit GetTarget (emit SelectLedger ?v0)) =
      (x, v')" by simp
  from migrateUp_private_names [OF this] assms(4) 1(5) show ?thesis
    by (simp add: nat_add_distrib drop_take_single)
qed

lemma migrateDown_calm_step:
  assumes "calm env" and "resolveMigrations env src = Inr ms"
    and "sort_key (collation env) (map fst (ledger w)) = take k (map name ms)" and "k \<le> length ms" and "0 < k"
    and op: "migrate env src targetDown w = (r, w')"
  shows "\<exists>rs. results r = Some rs \<and> map migrationName rs = [name (ms ! (k - 1))] \<and>
           list_all (\<lambda>p. direction p = Down) rs"
  using assms(1) op
proof (cases rule: migrate_calm)
  case (1 v x v')
  let ?h = "handle env"
  let ?v0 = "emit (AcquireLock ?h) v"
  let ?st = "\<lparr>migrations = ms, currentIndex = int k - 1\<rparr>"
  have sel: "selectFails env (trace ?v0) = None" and
    acq: "acquireMigrationLock env (trace v) = None"
    using assms(1) by (simp_all add: calm_def)
  have "sort_key (collation env) (map fst (ledger ?v0)) = take k (map name ms)" using 1(1) assms(3) by simp
  from getState_position [OF sel assms(2) this assms(4)]
  have gs: "getState env src ?v0 = (Inr ?st, emit SelectLedger ?v0)" .
  have tg: "targetDown ?st = Inr (Some (int k - 2))"
    using assms(5) by (simp add: targetDown_def max_def)
  have ne: "ms \<noteq> []" using assms(4,5) by auto
  have "run_try env src targetDown ?h v =
      migrateDown_private env ?st (int k - 2) (emit GetTarget (emit SelectLedger ?v0))"
    using acq gs tg ne by (auto simp: run_try_def)
  with 1(4) have "migrateDown_private env ?st (int k - 2)
      (emit GetTarget (emit SelectLedger ?v0)) = (x, v')" by simp
  from migrateDown_private_names [OF this] assms(4,5)
  have "\<exists>rs. results (settle x) = Some rs \<and>
      map migrationName rs = map name (rev (drop (nat (int k - 2 + 1)) (take (nat (int k - 1 + 1)) ms))) \<and>
      list_all (\<lambda>p. direction p = Down) rs" by simp
  moreover have "nat (int k - 2 + 1) = k - 1" "nat (int k - 1 + 1) = Suc (k - 1)"
    using assms(5) by simp_all
  moreover have "drop (k - 1) (take (Suc (k - 1)) ms) = [ms ! (k - 1)]"
    using assms(4,5) by (intro drop_take_single) simp
  ultimately show ?thesis using 1(5) by simp
qed

lemma repeatedly_Suc: "repeatedly operation (Suc n) w = snd (operation (repeatedly operation n w))"
  by (simp add: repeatedly_def)

lemma repeat_boundary:
  assumes "calm env" and "resolveMigrations env src = Inr ms"
    and "sort_key (collation env) (map fst (ledger w)) = take k (map name ms)" and "k \<le> length ms"
    and "ms = [] \<or> gt \<lparr>migrations = ms, currentIndex = int k - 1\<rparr> = Inr (Some (int k - 1))"
  shows "ledger (repeatedly (migrate env src gt) n w) = ledger w \<and>
         user (repeatedly (migrate env src gt) n w) = user w \<and>
         fst (migrate env src gt (repeatedly (migrate env src gt) n w)) = noResults"
proof -
  have step: "\<And>v. ledger v = ledger w \<Longrightarrow>
      fst (migrate env src gt v) = noResults \<and> ledger (snd (migrate env src gt v)) = ledger v \<and>
      user (snd (migrate env src gt v)) = user v"
  proof -
    fix v :: "'a world" assume l: "ledger v = ledger w"
    obtain r v' where op: "migrate env src gt v = (r, v')" by (cases "migrate env src gt v")
    have "sort_key (collation env) (map fst (ledger v)) = take k (map name ms)" using l assms(3) by simp
    from migrate_calm_noop [where gt = gt, OF assms(1,2) this assms(4,5) op] op
    show "fst (migrate env src gt v) = noResults \<and> ledger (snd (migrate env src gt v)) = ledger v \<and>
      user (snd (migrate env src gt v)) = user v" by simp
  qed
  have inv: "ledger (repeatedly (migrate env src gt) n w) = ledger w \<and>
         user (repeatedly (migrate env src gt) n w) = user w"
  proof (induction n)
    case 0
    show ?case by (simp add: repeatedly_def)
  next
    case (Suc n)
    with step [of "repeatedly (migrate env src gt) n w"] show ?case
      by (simp add: repeatedly_Suc)
  qed
  with step [of "repeatedly (migrate env src gt) n w"] show ?thesis by simp
qed

lemma resolve_three:
  "resolveMigrations env (three A B C) =
     Inr [\<lparr>up = up (own A), down = down (own A), name = ''a''\<rparr>,
          \<lparr>up = up (own B), down = down (own B), name = ''b''\<rparr>,
          \<lparr>up = up (own C), down = down (own C), name = ''c''\<rparr>]"
  by (simp add: resolveMigrations_def three_def named_def)

subsection \<open>Migrations without a backward action\<close>

lemma touches_same: "touches n ev \<Longrightarrow> touches n' ev \<Longrightarrow> n = n'"
  by (cases ev) simp_all

lemma irreversible:
  assumes "distinct (map name ms)" and "m \<in> set ms" and "down m = None"
  shows "\<not> reversible ms (name m)"
  using find_distinct [OF assms(1,2)] assms(3) by (simp add: reversible_def)

lemma planned_same_name: "name m' = name m \<Longrightarrow> planned d m' = planned d m"
  by (simp add: planned_def)

lemma reversed_name [simp]: "migrationName (reversed ms p) = migrationName p"
  by (simp add: reversed_def)

lemma migrateDown_private_skips:
  assumes d: "distinct (map name (migrations st))" and t: "- 1 \<le> t"
    and ci: "currentIndex st < int (length (migrations st))"
    and mem: "m \<in> set (drop (nat (t + 1)) (take (nat (currentIndex st + 1)) (migrations st)))"
    and nodown: "down m = None"
    and run: "migrateDown_private env st t w = (x, w')"
  shows "(\<exists>rs. results (settle x) = Some rs \<and> planned Down m \<in> set rs \<and>
            (\<forall>p \<in> set rs. migrationName p = name m \<longrightarrow> p = planned Down m)) \<and>
         list_all (\<lambda>ev. \<not> touches (name m) ev) (since w w') \<and>
         (\<forall>row \<in> set (ledger w). fst row = name m \<longrightarrow> row \<in> set (ledger w'))"
proof -
  let ?ms = "migrations st"
  let ?range = "rev (drop (nat (t + 1)) (take (nat (currentIndex st + 1)) ?ms))"
  let ?rs0 = "map (planned Down) ?range"
  have pl: "planDown ?ms (currentIndex st) t [] = Inr ([] @ ?rs0)"
    using t ci by (intro planDown_eq) simp_all
  obtain y v2 where y: "downRun env ?ms [] ?rs0 w = (y, v2)"
    by (cases "downRun env ?ms [] ?rs0 w")
  from run pl y have x: "x = (case y of Inl th \<Rightarrow> Inl th
      | Inr rs' \<Rightarrow> Inr \<lparr>error = None, results = Some rs'\<rparr>)" and w': "w' = v2"
    by (auto simp: migrateDown_private_def execDown_downRun split: sum.splits)
  have sub: "set ?range \<subseteq> set ?ms"
    by (auto dest!: in_set_dropD in_set_takeD)
  from mem sub have mms: "m \<in> set ?ms" by auto
  have irr: "\<not> reversible ?ms (name m)" by (rule irreversible [OF d mms nodown])
  have pm: "planned Down m \<in> set ?rs0" using mem by simp
  have keep: "reversed ?ms (planned Down m) = planned Down m"
    using irr by (simp add: reversed_def)
  have only: "\<And>q. q \<in> set ?rs0 \<Longrightarrow> migrationName q = name m \<Longrightarrow> q = planned Down m"
    by (auto intro: planned_same_name)
  have found: "\<forall>p \<in> set ?rs0. find (\<lambda>it. name it = migrationName p) ?ms \<noteq> None"
  proof
    fix p assume "p \<in> set ?rs0"
    then obtain m' where m': "m' \<in> set ?range" "p = planned Down m'" by auto
    from m'(1) sub have "m' \<in> set ?ms" by auto
    from find_member [OF this] m'(2)
    show "find (\<lambda>it. name it = migrationName p) ?ms \<noteq> None" by simp
  qed
  have entries: "\<exists>rs. results (settle x) = Some rs \<and> planned Down m \<in> set rs \<and>
            (\<forall>p \<in> set rs. migrationName p = name m \<longrightarrow> p = planned Down m)"
    and led: "\<forall>row \<in> set (ledger w). fst row = name m \<longrightarrow> row \<in> set (ledger w')"
  proof -
    show "\<exists>rs. results (settle x) = Some rs \<and> planned Down m \<in> set rs \<and>
            (\<forall>p \<in> set rs. migrationName p = name m \<longrightarrow> p = planned Down m)"
    proof (cases y)
      case (Inr rs')
      with downRun_Inr [of env ?ms "[]" ?rs0 w rs' v2] y
      have rs': "rs' = map (reversed ?ms) ?rs0" by simp
      have "reversed ?ms (planned Down m) \<in> reversed ?ms ` set ?rs0"
        using pm by (rule imageI)
      then have 1: "planned Down m \<in> set rs'"
        unfolding rs' keep by (simp only: set_map)
      have 2: "\<forall>p \<in> set rs'. migrationName p = name m \<longrightarrow> p = planned Down m"
      proof (intro ballI impI)
        fix p assume pin: "p \<in> set rs'" and n: "migrationName p = name m"
        from pin have "p \<in> reversed ?ms ` set ?rs0" unfolding rs' by (simp only: set_map)
        then obtain q where q: "q \<in> set ?rs0" "p = reversed ?ms q" by (rule imageE)
        have "migrationName q = migrationName p" unfolding q(2) by (simp only: reversed_name)
        then have nq: "migrationName q = name m" using n by (rule trans)
        have "q = planned Down m" by (rule only [OF q(1) nq])
        then show "p = planned Down m" unfolding q(2) using keep by (simp only:)
      qed
      have "results (settle x) = Some rs'" using x Inr by (simp add: settle_def)
      with 1 2 show ?thesis by blast
    next
      case (Inl th)
      show ?thesis
      proof (cases th)
        case (Plain e)
        with Inl y downRun_Plain [of env ?ms "[]" ?rs0 w e v2]
        have "\<exists>p \<in> set ?rs0. find (\<lambda>it. name it = migrationName p) ?ms = None" by simp
        with found have False by blast
        then show ?thesis ..
      next
        case (MigrationResultSetError rset)
        with Inl y downRun_failed [of env ?ms "[]" ?rs0 w rset v2]
        obtain e pre q post where *: "?rs0 = pre @ q # post" "reversible ?ms (migrationName q)"
          "rset = \<lparr>error = Some e,
                   results = Some (map (reversed ?ms) pre @ failed Down q # post)\<rparr>"
          by auto
        let ?out = "map (reversed ?ms) pre @ failed Down q # post"
        from *(2) irr have qm: "migrationName q \<noteq> name m" by auto
        then have "q \<noteq> planned Down m" by auto
        have "set ?rs0 = set pre \<union> insert q (set post)" unfolding *(1) by simp
        with pm have "planned Down m \<in> set pre \<union> insert q (set post)" by (simp only:)
        with \<open>q \<noteq> planned Down m\<close>
        have "planned Down m \<in> set pre \<or> planned Down m \<in> set post" by blast
        then have 1: "planned Down m \<in> set ?out"
        proof
          assume "planned Down m \<in> set pre"
          then have "reversed ?ms (planned Down m) \<in> set (map (reversed ?ms) pre)" by simp
          with keep show ?thesis by simp
        next
          assume "planned Down m \<in> set post"
          then show ?thesis by simp
        qed
        have 2: "\<forall>p \<in> set ?out. migrationName p = name m \<longrightarrow> p = planned Down m"
        proof (intro ballI impI)
          fix p assume p: "p \<in> set ?out" and n: "migrationName p = name m"
          from p consider (a) q' where "q' \<in> set pre" "p = reversed ?ms q'"
            | (b) "p = failed Down q" | (c) "p \<in> set post" by auto
          then show "p = planned Down m"
          proof cases
            case a
            have "migrationName q' = migrationName p" unfolding a(2) by (simp only: reversed_name)
            then have nq: "migrationName q' = name m" using n by (rule trans)
            have "set pre \<subseteq> set ?rs0" unfolding *(1) by (simp only: set_append Un_upper1)
            with a(1) have "q' \<in> set ?rs0" by (rule subsetD [rotated])
            then have "q' = planned Down m" using nq by (rule only)
            then show ?thesis unfolding a(2) using keep by (simp only:)
          next
            case b
            with n qm show ?thesis by simp
          next
            case c
            have "set post \<subseteq> set ?rs0" unfolding *(1) by auto
            with c have "p \<in> set ?rs0" by (rule subsetD [rotated])
            from only [OF this n] show ?thesis .
          qed
        qed
        have "results (settle x) = Some ?out"
          using x Inl MigrationResultSetError *(3) by (simp add: settle_def)
        with 1 2 show ?thesis by blast
      qed
    qed
    show "\<forall>row \<in> set (ledger w). fst row = name m \<longrightarrow> row \<in> set (ledger w')"
    proof (cases y)
      case (Inr rs')
      with downRun_Inr [of env ?ms "[]" ?rs0 w rs' v2] y w'
      have "ledger w' =
          filter (\<lambda>row. \<not> (fst row \<in> migrationName ` set ?rs0 \<and> reversible ?ms (fst row)))
            (ledger w)" by simp
      with irr show ?thesis by simp
    next
      case (Inl th)
      show ?thesis
      proof (cases th)
        case (Plain e)
        with Inl y downRun_Plain [of env ?ms "[]" ?rs0 w e v2]
        have "\<exists>p \<in> set ?rs0. find (\<lambda>it. name it = migrationName p) ?ms = None" by simp
        with found have False by blast
        then show ?thesis ..
      next
        case (MigrationResultSetError rset)
        with Inl y have "downRun env ?ms [] ?rs0 w = (Inl (MigrationResultSetError rset), v2)"
          by simp
        from downRun_failed [OF this]
        obtain pre :: "MigrationResult list" where "ledger v2 =
            filter (\<lambda>row. \<not> (fst row \<in> migrationName ` set pre \<and> reversible ?ms (fst row)))
              (ledger w)" by (elim exE conjE) (rule that)
        with w' irr show ?thesis by simp
      qed
    qed
  qed
  from downRun_grows [OF y] w'
  have "grows (\<lambda>e. kind e = Step \<and>
              (\<exists>p \<in> set ?rs0. reversible ?ms (migrationName p) \<and> touches (migrationName p) e))
       w w'" by simp
  then have "grows (\<lambda>ev. \<not> touches (name m) ev) w w'"
  proof (rule grows_mono)
    fix ev
    assume "kind ev = Step \<and>
              (\<exists>p \<in> set ?rs0. reversible ?ms (migrationName p) \<and> touches (migrationName p) ev)"
    then obtain p :: MigrationResult
      where p: "reversible ?ms (migrationName p)" "touches (migrationName p) ev"
      by blast
    show "\<not> touches (name m) ev"
    proof
      assume "touches (name m) ev"
      from touches_same [OF this p(2)] p(1) irr show False by simp
    qed
  qed
  from since_grows [OF this] have "list_all (\<lambda>ev. \<not> touches (name m) ev) (since w w')"
    by simp
  with entries led show ?thesis by blast
qed

lemma migrateDown_private_all_skipped:
  assumes t: "- 1 \<le> t" and ci: "currentIndex st < int (length (migrations st))"
    and d: "distinct (map name (migrations st))"
    and all: "\<forall>m \<in> set (drop (nat (t + 1)) (take (nat (currentIndex st + 1)) (migrations st))).
               down m = None"
  shows "fst (migrateDown_private env st t w) =
           Inr \<lparr>error = None,
                results = Some (map (planned Down)
                  (rev (drop (nat (t + 1)) (take (nat (currentIndex st + 1)) (migrations st)))))\<rparr> \<and>
         ledger (snd (migrateDown_private env st t w)) = ledger w \<and>
         user (snd (migrateDown_private env st t w)) = user w \<and>
         trace (snd (migrateDown_private env st t w)) = trace w"
proof -
  let ?ms = "migrations st"
  let ?range = "rev (drop (nat (t + 1)) (take (nat (currentIndex st + 1)) ?ms))"
  let ?rs0 = "map (planned Down) ?range"
  have pl: "planDown ?ms (currentIndex st) t [] = Inr ([] @ ?rs0)"
    using t ci by (intro planDown_eq) simp_all
  obtain y v2 where y: "downRun env ?ms [] ?rs0 w = (y, v2)"
    by (cases "downRun env ?ms [] ?rs0 w")
  have sub: "set ?range \<subseteq> set ?ms"
    by (auto dest!: in_set_dropD in_set_takeD)
  have irr: "\<forall>p \<in> set ?rs0. \<not> reversible ?ms (migrationName p)"
  proof
    fix p :: MigrationResult assume "p \<in> set ?rs0"
    then obtain m where m: "m \<in> set ?range" "p = planned Down m" by auto
    from m(1) all have "down m = None" by simp
    from irreversible [OF d _ this] m sub
    show "\<not> reversible ?ms (migrationName p)" by auto
  qed
  have found: "\<forall>p \<in> set ?rs0. find (\<lambda>it. name it = migrationName p) ?ms \<noteq> None"
  proof
    fix p :: MigrationResult assume "p \<in> set ?rs0"
    then obtain m' where m': "m' \<in> set ?range" "p = planned Down m'" by auto
    from m'(1) sub have "m' \<in> set ?ms" by auto
    from find_member [OF this] m'(2)
    show "find (\<lambda>it. name it = migrationName p) ?ms \<noteq> None" by simp
  qed
  note same = downRun_user_ledger [OF y irr]
  have "y = Inr ?rs0"
  proof (cases y)
    case (Inr rs')
    with downRun_Inr [of env ?ms "[]" ?rs0 w rs' v2] y
    have "rs' = map (reversed ?ms) ?rs0" by simp
    also have "\<dots> = ?rs0"
    proof (rule map_idI)
      fix p :: MigrationResult assume "p \<in> set ?rs0"
      with irr have "\<not> reversible ?ms (migrationName p)" by (rule bspec)
      then show "reversed ?ms p = p" by (simp add: reversed_def)
    qed
    finally show ?thesis using Inr by simp
  next
    case (Inl th)
    show ?thesis
    proof (cases th)
      case (Plain e)
      with Inl y downRun_Plain [of env ?ms "[]" ?rs0 w e v2]
      have "\<exists>p \<in> set ?rs0. find (\<lambda>it. name it = migrationName p) ?ms = None" by simp
      with found have False by blast
      then show ?thesis ..
    next
      case (MigrationResultSetError rset)
      with Inl y have "downRun env ?ms [] ?rs0 w = (Inl (MigrationResultSetError rset), v2)"
        by simp
      from downRun_failed [OF this]
      obtain pre post :: "MigrationResult list" and p :: MigrationResult
        where "?rs0 = pre @ p # post" "reversible ?ms (migrationName p)"
        by (elim exE conjE) (rule that)
      moreover from this(1) have "p \<in> set ?rs0" by (simp only: set_append) simp
      ultimately have False using irr by blast
      then show ?thesis ..
    qed
  qed
  with y pl same show ?thesis
    by (simp add: migrateDown_private_def execDown_downRun)
qed

subsection \<open>Operating on a corrupted ledger\<close>

lemma read_not_prefix:
  assumes "sorted ns" and "\<not> prefix (sort l) ns"
  shows "\<not> prefix (sort_key c l) ns"
proof
  assume p: "prefix (sort_key c l) ns"
  then obtain zs where "ns = sort_key c l @ zs" by (auto simp: prefix_def)
  with assms(1) have "sorted (sort_key c l)" by (simp add: sorted_append)
  moreover have "mset (sort_key c l) = mset l" by simp
  ultimately have "sort l = sort_key c l" by (simp add: properties_for_sort)
  with p assms(2) show False by simp
qed

lemma migrate_corrupt:
  assumes "resolveMigrations env src = Inr M"
    and "distinct (map fst (ledger w))"
    and "\<not> prefix (sort (map fst (ledger w))) (map name M)"
    and op: "migrate env src gt w = (r, w')"
  shows "(\<exists>e. ensureMigrationsNotCorrupted M (sort_key (collation env) (map fst (ledger w))) = Some e \<and>
              isCorruption e) \<and>
         planningFailure r \<and> ledger w' = ledger w \<and> user w' = user w \<and>
         trace w' = trace w @ since w w' \<and>
         list_all (\<lambda>e. kind e \<noteq> Step) (since w w') \<and>
         (calm env \<longrightarrow> (\<exists>e. error r = Some e \<and> isCorruption e))"
proof -
  let ?L = "sort_key (collation env) (map fst (ledger w))"
  have np: "\<not> prefix ?L (map name M)"
    using resolve_names(3) [OF assms(1)] assms(3) by (rule read_not_prefix)
  have "ensureMigrationsNotCorrupted M ?L \<noteq> None"
    using np by (simp add: ensure_None_iff)
  then obtain c where c: "ensureMigrationsNotCorrupted M ?L = Some c" by auto
  have cc: "isCorruption c"
    using ensure_Some_corruption [OF _ c] assms(2) by simp
  have idle: "\<And>h v x v'. ledger v = ledger w \<Longrightarrow> user v = user w \<Longrightarrow>
        run_try env src gt h v = (x, v') \<Longrightarrow>
        (\<exists>e. x = Inl (Plain e)) \<and> ledger v' = ledger v \<and> user v' = user v \<and>
        grows (\<lambda>e. e = AcquireLock h \<or> e = SelectLedger) v v'"
  proof -
    fix h v x v'
    assume l: "ledger v = ledger w" and rt: "run_try env src gt h v = (x, v')"
    have "\<exists>e. fst (getState env src (emit (AcquireLock h) v)) = Inl e"
      using assms(1) np l by (intro getState_corrupt [of env src M]) simp_all
    with run_try_unplanned [OF rt] show "(\<exists>e. x = Inl (Plain e)) \<and> ledger v' = ledger v \<and>
        user v' = user v \<and> grows (\<lambda>e. e = AcquireLock h \<or> e = SelectLedger) v v'"
      by blast
  qed
  have q: "\<And>h v x v'. ledger v = ledger w \<Longrightarrow> user v = user w \<Longrightarrow>
        run_try env src gt h v = (x, v') \<Longrightarrow>
        (\<exists>e. x = Inl (Plain e)) \<and> ledger v' = ledger v \<and> user v' = user v \<and>
        grows (\<lambda>e. kind e \<noteq> Step) v v'"
  proof -
    fix h v x v'
    assume a: "ledger v = ledger w" "user v = user w" "run_try env src gt h v = (x, v')"
    from idle [OF a] have i: "(\<exists>e. x = Inl (Plain e))" "ledger v' = ledger v" "user v' = user v"
      "grows (\<lambda>e. e = AcquireLock h \<or> e = SelectLedger) v v'" by simp_all
    from i(4) have "grows (\<lambda>e. kind e \<noteq> Step) v v'" by (rule grows_mono) auto
    with i show "(\<exists>e. x = Inl (Plain e)) \<and> ledger v' = ledger v \<and> user v' = user v \<and>
        grows (\<lambda>e. kind e \<noteq> Step) v v'" by simp
  qed
  have idle2: "ledger w' = ledger w \<and> user w' = user w \<and>
      grows (\<lambda>e. kind e \<noteq> Step \<or> kind e = Bootstrap \<or> kind e = Context \<or> kind e = Lock) w w' \<and>
      (planningFailure r \<or> (\<exists>x. (\<exists>e. x = Inl (Plain e)) \<and> r = settle x))"
    by (rule migrate_idle [OF op q])
  then have "grows (\<lambda>e. kind e \<noteq> Step) w w'"
    by (auto elim!: grows_mono)
  then have tr: "trace w' = trace w @ since w w'" "list_all (\<lambda>e. kind e \<noteq> Step) (since w w')"
    by (simp_all add: since_grows)
  have pf: "planningFailure r"
    using idle2 by (auto simp: planningFailure_def settle_def)
  have calm: "\<exists>e. error r = Some e \<and> isCorruption e" if "calm env"
    using that op
  proof (cases rule: migrate_calm)
    case (1 v x v')
    let ?v0 = "emit (AcquireLock (handle env)) v"
    have sel: "selectFails env (trace ?v0) = None" and
      acq: "acquireMigrationLock env (trace v) = None"
      using that by (simp_all add: calm_def)
    have "getState env src ?v0 = (Inl c, emit SelectLedger ?v0)"
      using assms(1) c 1(1) by (simp add: getState_select [OF sel])
    with 1(4) acq have "x = Inl (Plain c)" by (simp add: run_try_def)
    with 1(5) cc show ?thesis by (simp add: settle_def)
  qed
  from c cc pf idle2 tr calm show ?thesis
    by simp
qed

subsection \<open>Down runs whose backward actions succeed\<close>

lemma downRun_succeeds:
  assumes "\<forall>t. deleteFails env t = None"
    and "\<forall>p \<in> set pending. \<exists>m. find (\<lambda>it. name it = migrationName p) ms = Some m \<and>
           (\<forall>f u. down m = Some f \<longrightarrow> fst (f u) = None)"
  shows "\<exists>rs' w' es. downRun env ms finished pending w = (Inr rs', w') \<and>
           trace w' = trace w @ es \<and>
           (\<forall>p \<in> set pending. reversible ms (migrationName p) \<longrightarrow>
              CallDown (migrationName p) \<in> set es \<and> DeleteLedger (migrationName p) \<in> set es)"
  using assms(2)
proof (induction pending arbitrary: finished w)
  case Nil
  show ?case by simp
next
  case (Cons p pending)
  from Cons.prems obtain m where m: "find (\<lambda>it. name it = migrationName p) ms = Some m"
    and ok: "\<forall>f u. down m = Some f \<longrightarrow> fst (f u) = None" by auto
  from find_name [OF m] have nm: "name m = migrationName p" ..
  from Cons.prems have rest: "\<forall>p \<in> set pending.
      \<exists>m. find (\<lambda>it. name it = migrationName p) ms = Some m \<and>
          (\<forall>f u. down m = Some f \<longrightarrow> fst (f u) = None)" by simp
  show ?case
  proof (cases "down m")
    case None
    then have irr: "\<not> reversible ms (migrationName p)" by (simp add: reversible_def m)
    from Cons.IH [OF rest, of "finished @ [p]" w] obtain rs' w' es where
      *: "downRun env ms (finished @ [p]) pending w = (Inr rs', w')" "trace w' = trace w @ es"
      "\<forall>p \<in> set pending. reversible ms (migrationName p) \<longrightarrow>
         CallDown (migrationName p) \<in> set es \<and> DeleteLedger (migrationName p) \<in> set es"
      by blast
    from *(1) m None have "downRun env ms finished (p # pending) w = (Inr rs', w')" by simp
    moreover from *(3) irr have "\<forall>q \<in> set (p # pending). reversible ms (migrationName q) \<longrightarrow>
         CallDown (migrationName q) \<in> set es \<and> DeleteLedger (migrationName q) \<in> set es"
      by simp
    ultimately show ?thesis using *(2) by blast
  next
    case (Some f)
    obtain u1 where dn: "f (user w) = (None, u1)"
      using ok Some by (cases "f (user w)") (metis fst_conv)
    let ?w1 = "emit (CallDown (name m)) (w\<lparr>user := u1\<rparr>)"
    let ?w2 = "emit (DeleteLedger (name m))
                 (?w1\<lparr>ledger := filter (\<lambda>r. fst r \<noteq> name m) (ledger ?w1)\<rparr>)"
    have del: "deleteFrom env (name m) ?w1 = (None, ?w2)"
      using assms(1) by (simp add: deleteFrom_def)
    let ?fin = "finished @ [\<lparr>migrationName = name m, direction = Down, status = Success\<rparr>]"
    from Cons.IH [OF rest, of ?fin ?w2] obtain rs' w' es where
      *: "downRun env ms ?fin pending ?w2 = (Inr rs', w')" "trace w' = trace ?w2 @ es"
      "\<forall>p \<in> set pending. reversible ms (migrationName p) \<longrightarrow>
         CallDown (migrationName p) \<in> set es \<and> DeleteLedger (migrationName p) \<in> set es"
      by blast
    have run: "downRun env ms finished (p # pending) w = (Inr rs', w')"
      using m Some dn del *(1) by simp
    let ?es = "[CallDown (migrationName p), DeleteLedger (migrationName p)] @ es"
    have tr: "trace w' = trace w @ ?es" using *(2) nm by simp
    have "\<forall>q \<in> set (p # pending). reversible ms (migrationName q) \<longrightarrow>
         CallDown (migrationName q) \<in> set ?es \<and> DeleteLedger (migrationName q) \<in> set ?es"
      using *(3) by simp
    with run tr show ?thesis by blast
  qed
qed

lemma nth_in_take:
  assumes "distinct xs" and "j < length xs" and "xs ! j \<in> set (take k xs)"
  shows "j < k"
proof -
  from assms(3) obtain i where i: "i < length (take k xs)" "take k xs ! i = xs ! j"
    by (auto simp: in_set_conv_nth)
  then have "i < k" "i < length xs" "xs ! i = xs ! j" by simp_all
  with assms(1,2) have "i = j" by (simp add: nth_eq_iff_index_eq)
  with \<open>i < k\<close> show ?thesis by simp
qed

lemma hole_breaks_prefix:
  assumes "distinct xs" and "i < j" and "j < length xs"
    and "xs ! j \<in> set ys" and "xs ! i \<notin> set ys"
  shows "\<not> prefix ys xs"
proof
  assume "prefix ys xs"
  then obtain zs where "xs = ys @ zs" by (auto simp: prefix_def)
  then have ys: "ys = take (length ys) xs" by simp
  with assms(4) have "xs ! j \<in> set (take (length ys) xs)" by simp
  from nth_in_take [OF assms(1,3) this] assms(2) have "i < length ys" by simp
  moreover have "i < length xs" using assms(2,3) by simp
  ultimately have "xs ! i \<in> set (take (length ys) xs)"
    by (metis in_set_conv_nth length_take min_less_iff_conj nth_take)
  with ys assms(5) show False by simp
qed

lemma reversible_iff:
  assumes "distinct (map name ms)" and "m \<in> set ms"
  shows "reversible ms (name m) \<longleftrightarrow> down m \<noteq> None"
  using find_distinct [OF assms] by (simp add: reversible_def)

lemma same_name_same_migration:
  assumes "distinct (map name ms)" and "m \<in> set ms" and "m' \<in> set ms" and "name m = name m'"
  shows "m = m'"
  using assms by (metis distinct_map inj_onD)

lemma migrateDown_private_succeeds:
  assumes d: "distinct (map name (migrations st))" and t: "- 1 \<le> t"
    and ci: "currentIndex st < int (length (migrations st))"
    and del: "\<forall>h. deleteFails env h = None"
    and ok: "\<forall>m \<in> set (drop (nat (t + 1)) (take (nat (currentIndex st + 1)) (migrations st))).
               \<forall>f u. down m = Some f \<longrightarrow> fst (f u) = None"
    and run: "migrateDown_private env st t w = (x, w')"
  shows "x = Inr \<lparr>error = None,
                  results = Some (map (\<lambda>m. \<lparr>migrationName = name m, direction = Down,
                       status = (if down m = None then NotExecuted else Success)\<rparr>)
                    (rev (drop (nat (t + 1)) (take (nat (currentIndex st + 1)) (migrations st)))))\<rparr>"
    and "ledger w' =
           filter (\<lambda>row. \<not> (\<exists>m \<in> set (drop (nat (t + 1))
                                  (take (nat (currentIndex st + 1)) (migrations st))).
                                down m \<noteq> None \<and> name m = fst row)) (ledger w)"
    and "\<forall>m \<in> set (drop (nat (t + 1)) (take (nat (currentIndex st + 1)) (migrations st))).
           down m \<noteq> None \<longrightarrow>
             CallDown (name m) \<in> set (since w w') \<and> DeleteLedger (name m) \<in> set (since w w')"
proof -
  let ?ms = "migrations st"
  let ?R = "drop (nat (t + 1)) (take (nat (currentIndex st + 1)) ?ms)"
  let ?rs = "map (planned Down) (rev ?R)"
  have sub: "set ?R \<subseteq> set ?ms" by (meson set_drop_subset set_take_subset subset_trans)
  have pl: "planDown ?ms (currentIndex st) t [] = Inr ?rs"
    using planDown_eq [OF t ci, of "[]"] by simp
  have ex: "execDown env st 0 ?rs w = downRun env ?ms [] ?rs w"
    using execDown_downRun [of 0 ?rs env st w] by simp
  have pre: "\<forall>p \<in> set ?rs. \<exists>m. find (\<lambda>it. name it = migrationName p) ?ms = Some m \<and>
           (\<forall>f u. down m = Some f \<longrightarrow> fst (f u) = None)"
  proof
    fix p assume "p \<in> set ?rs"
    then obtain m where m: "m \<in> set ?R" "p = planned Down m" by auto
    from m(1) sub have "m \<in> set ?ms" by blast
    from find_distinct [OF d this] m(2)
    have "find (\<lambda>it. name it = migrationName p) ?ms = Some m" by (simp add: planned_def)
    moreover from ok m(1) have "\<forall>f u. down m = Some f \<longrightarrow> fst (f u) = None" by blast
    ultimately show "\<exists>m. find (\<lambda>it. name it = migrationName p) ?ms = Some m \<and>
           (\<forall>f u. down m = Some f \<longrightarrow> fst (f u) = None)" by blast
  qed
  from downRun_succeeds [OF del pre, of "[]" w] obtain rs' v es where
    dr: "downRun env ?ms [] ?rs w = (Inr rs', v)" and tr: "trace v = trace w @ es"
    and evs: "\<forall>p \<in> set ?rs. reversible ?ms (migrationName p) \<longrightarrow>
           CallDown (migrationName p) \<in> set es \<and> DeleteLedger (migrationName p) \<in> set es"
    by blast
  from run pl ex dr have x: "x = Inr \<lparr>error = None, results = Some rs'\<rparr>" and v: "w' = v"
    by (simp_all add: migrateDown_private_def)
  from downRun_Inr [OF dr] have rs': "rs' = map (reversed ?ms) ?rs"
    and led: "ledger v = filter (\<lambda>row. \<not> (fst row \<in> migrationName ` set ?rs \<and>
                 reversible ?ms (fst row))) (ledger w)" by simp_all
  have each: "reversed ?ms (planned Down m) =
      \<lparr>migrationName = name m, direction = Down,
       status = (if down m = None then NotExecuted else Success)\<rparr>" if "m \<in> set ?R" for m
  proof -
    from that sub have "m \<in> set ?ms" by blast
    from reversible_iff [OF d this] show ?thesis
      by (simp add: reversed_def planned_def succeeded_def)
  qed
  have "rs' = map (\<lambda>m. \<lparr>migrationName = name m, direction = Down,
                       status = (if down m = None then NotExecuted else Success)\<rparr>) (rev ?R)"
    unfolding rs' using each by simp
  with x show "x = Inr \<lparr>error = None,
                  results = Some (map (\<lambda>m. \<lparr>migrationName = name m, direction = Down,
                       status = (if down m = None then NotExecuted else Success)\<rparr>) (rev ?R))\<rparr>"
    by simp
  have cond: "(fst row \<in> migrationName ` set ?rs \<and> reversible ?ms (fst row)) \<longleftrightarrow>
      (\<exists>m \<in> set ?R. down m \<noteq> None \<and> name m = fst row)" for row :: "string \<times> string"
  proof
    assume a: "fst row \<in> migrationName ` set ?rs \<and> reversible ?ms (fst row)"
    then obtain m where m: "m \<in> set ?R" "fst row = name m" by (auto simp: planned_def)
    from m(1) sub have "m \<in> set ?ms" by blast
    from reversible_iff [OF d this] a m(2) have "down m \<noteq> None" by simp
    with m show "\<exists>m \<in> set ?R. down m \<noteq> None \<and> name m = fst row" by auto
  next
    assume "\<exists>m \<in> set ?R. down m \<noteq> None \<and> name m = fst row"
    then obtain m where m: "m \<in> set ?R" "down m \<noteq> None" "name m = fst row" by blast
    from m(1) sub have "m \<in> set ?ms" by blast
    from reversible_iff [OF d this] m(2,3) have "reversible ?ms (fst row)" by simp
    moreover from m(1,3) have "fst row \<in> migrationName ` set ?rs"
      by (force simp: planned_def)
    ultimately show "fst row \<in> migrationName ` set ?rs \<and> reversible ?ms (fst row)" by simp
  qed
  have "(\<lambda>row :: string \<times> string. \<not> (fst row \<in> migrationName ` set ?rs \<and>
                 reversible ?ms (fst row))) =
        (\<lambda>row. \<not> (\<exists>m \<in> set ?R. down m \<noteq> None \<and> name m = fst row))"
    by (rule ext) (simp only: cond)
  with led v show "ledger w' = filter (\<lambda>row. \<not> (\<exists>m \<in> set ?R. down m \<noteq> None \<and> name m = fst row))
      (ledger w)" by (simp only:)
  have sn: "since w w' = es" using tr v by (simp add: since_def)
  show "\<forall>m \<in> set ?R. down m \<noteq> None \<longrightarrow>
      CallDown (name m) \<in> set (since w w') \<and> DeleteLedger (name m) \<in> set (since w w')"
  proof (intro ballI impI)
    fix m assume m: "m \<in> set ?R" "down m \<noteq> None"
    from m(1) sub have "m \<in> set ?ms" by blast
    from reversible_iff [OF d this] m(2) have "reversible ?ms (name m)" by simp
    moreover from m(1) have "planned Down m \<in> set ?rs" by simp
    ultimately show "CallDown (name m) \<in> set (since w w') \<and>
        DeleteLedger (name m) \<in> set (since w w')"
      using evs unfolding sn by (force simp: planned_def)
  qed
qed

lemma migrate_calm_down:
  assumes c: "calm env" and res: "resolveMigrations env src = Inr ms"
    and led: "sort_key (collation env) (map fst (ledger w)) = take k (map name ms)"
    and k: "k \<le> length ms"
    and gt: "gt \<lparr>migrations = ms, currentIndex = int k - 1\<rparr> = Inr (Some t)"
    and t: "- 1 \<le> t" "t < int k - 1"
    and ok: "\<forall>mg \<in> set (drop (nat (t + 1)) (take k ms)).
               \<forall>f u. down mg = Some f \<longrightarrow> fst (f u) = None"
    and op: "migrate env src gt w = (r, w')"
  shows "r = \<lparr>error = None,
              results = Some (map (\<lambda>mg. \<lparr>migrationName = name mg, direction = Down,
                   status = (if down mg = None then NotExecuted else Success)\<rparr>)
                (rev (drop (nat (t + 1)) (take k ms))))\<rparr> \<and>
         ledger w' =
           filter (\<lambda>row. \<not> (\<exists>mg \<in> set (drop (nat (t + 1)) (take k ms)).
                                down mg \<noteq> None \<and> name mg = fst row)) (ledger w) \<and>
         (\<forall>mg \<in> set (drop (nat (t + 1)) (take k ms)).
           down mg \<noteq> None \<longrightarrow>
             CallDown (name mg) \<in> set (since w w') \<and> DeleteLedger (name mg) \<in> set (since w w'))"
  using c op
proof (cases rule: migrate_calm)
  case (1 v x v')
  let ?h = "handle env"
  let ?v0 = "emit (AcquireLock ?h) v"
  let ?st = "\<lparr>migrations = ms, currentIndex = int k - 1\<rparr>"
  let ?g = "emit GetTarget (emit SelectLedger ?v0)"
  let ?R = "drop (nat (t + 1)) (take k ms)"
  have sel: "selectFails env (trace ?v0) = None" and
    acq: "acquireMigrationLock env (trace v) = None" and
    del: "\<forall>h. deleteFails env h = None"
    using c by (simp_all add: calm_def)
  have "sort_key (collation env) (map fst (ledger ?v0)) = take k (map name ms)"
    using 1(1) led by simp
  from getState_position [OF sel res this k]
  have gs: "getState env src ?v0 = (Inr ?st, emit SelectLedger ?v0)" .
  have ne: "ms \<noteq> []" using t k by auto
  have lt: "t < currentIndex ?st" using t by simp
  have rt: "run_try env src gt ?h v = migrateDown_private env ?st t ?g"
    using acq gs gt ne lt by (simp add: run_try_def)
  with 1(4) have run: "migrateDown_private env ?st t ?g = (x, v')" by simp
  have d: "distinct (map name (migrations ?st))" using resolve_names(2) [OF res] by simp
  have ci: "currentIndex ?st < int (length (migrations ?st))" using k by simp
  have R: "drop (nat (t + 1)) (take (nat (currentIndex ?st + 1)) (migrations ?st)) = ?R"
    by simp
  have ok': "\<forall>m \<in> set (drop (nat (t + 1)) (take (nat (currentIndex ?st + 1)) (migrations ?st))).
               \<forall>f u. down m = Some f \<longrightarrow> fst (f u) = None"
    unfolding R using ok .
  note s = migrateDown_private_succeeds [OF d t(1) ci del ok' run, unfolded R]
  from s(1) 1(5) have A: "r = \<lparr>error = None,
              results = Some (map (\<lambda>mg. \<lparr>migrationName = name mg, direction = Down,
                   status = (if down mg = None then NotExecuted else Success)\<rparr>) (rev ?R))\<rparr>"
    by (simp add: settle_def)
  from s(1) have nisl: "\<not> isl x" by simp
  from 1(6) nisl have "ledger w' = ledger v'" by simp
  with s(2) 1(1) have B: "ledger w' =
      filter (\<lambda>row. \<not> (\<exists>mg \<in> set ?R. down mg \<noteq> None \<and> name mg = fst row)) (ledger w)"
    by simp
  from 1(3) obtain bs where bs: "trace v = trace w @ bs" by (auto simp: grows_iff)
  from since_grows [OF migrateDown_private_grows [OF run]]
  have es: "trace v' = trace ?g @ since ?g v'" by simp
  from 1(8) obtain post where post: "trace w' = trace v' @ ReleaseLock ?h # post" by auto
  have "trace w' = trace w @ (bs @ [AcquireLock ?h, SelectLedger, GetTarget] @ since ?g v' @
      ReleaseLock ?h # post)"
    using bs es post by simp
  from since_append [OF this]
  have sub: "set (since ?g v') \<subseteq> set (since w w')" by auto
  with s(3) have "\<forall>mg \<in> set ?R. down mg \<noteq> None \<longrightarrow>
      CallDown (name mg) \<in> set (since w w') \<and> DeleteLedger (name mg) \<in> set (since w w')"
    by blast
  with A B show ?thesis by (simp only: simp_thms)
qed

lemma hole_in_ledger:
  assumes d: "distinct (map name ms)"
    and led: "sort_key c (map fst l) = take k (map name ms)" and k: "k \<le> length ms"
    and i: "lo \<le> i" "i < j" "j < k" "down (ms ! i) \<noteq> None" "down (ms ! j) = None"
  shows "\<not> prefix
           (sort (map fst (filter (\<lambda>row. \<not> (\<exists>mg \<in> set (drop lo (take k ms)).
                                   down mg \<noteq> None \<and> name mg = fst row)) l)))
           (map name ms)"
    and "distinct (map fst (filter (\<lambda>row. \<not> (\<exists>mg \<in> set (drop lo (take k ms)).
                                   down mg \<noteq> None \<and> name mg = fst row)) l))"
proof -
  let ?R = "drop lo (take k ms)"
  let ?l' = "filter (\<lambda>row. \<not> (\<exists>mg \<in> set ?R. down mg \<noteq> None \<and> name mg = fst row)) l"
  let ?xs = "map name ms"
  have jl: "j < length ms" and il: "i < length ms" using i k by simp_all
  have setl: "set (map fst l) = set (take k ?xs)"
    using led by (metis set_sort)
  have "distinct (sort_key c (map fst l))" unfolding led using d by simp
  then have dl: "distinct (map fst l)" by simp
  then show "distinct (map fst ?l')" by (rule distinct_map_filter)
  have subR: "set ?R \<subseteq> set ms" by (meson set_drop_subset set_take_subset subset_trans)
  have iR: "ms ! i \<in> set ?R"
  proof -
    have "i - lo < length ?R" using i k by simp
    moreover have "?R ! (i - lo) = ms ! i" using i k by simp
    ultimately show ?thesis by (metis nth_mem)
  qed
  have "?xs ! j \<in> set (take k ?xs)"
  proof -
    have "j < length (take k ?xs)" using i k by simp
    moreover have "take k ?xs ! j = ?xs ! j" using i by simp
    ultimately show ?thesis by (metis nth_mem)
  qed
  with setl have "?xs ! j \<in> fst ` set l" by simp
  then obtain row where row: "row \<in> set l" "fst row = ?xs ! j" by (metis imageE)
  have keep: "\<not> (\<exists>mg \<in> set ?R. down mg \<noteq> None \<and> name mg = fst row)"
  proof
    assume "\<exists>mg \<in> set ?R. down mg \<noteq> None \<and> name mg = fst row"
    then obtain mg where mg: "mg \<in> set ?R" "down mg \<noteq> None" "name mg = fst row" by blast
    from mg(1) subR have "mg \<in> set ms" by blast
    moreover have "ms ! j \<in> set ms" using jl by simp
    moreover have "name mg = name (ms ! j)" using mg(3) row(2) jl by simp
    ultimately have "mg = ms ! j" using d by (rule same_name_same_migration [rotated])
    with mg(2) i(5) show False by simp
  qed
  from row keep have inl: "?xs ! j \<in> set (sort (map fst ?l'))" by force
  have out: "?xs ! i \<notin> set (sort (map fst ?l'))"
  proof
    assume "?xs ! i \<in> set (sort (map fst ?l'))"
    then obtain row where "row \<in> set ?l'" "fst row = ?xs ! i" by auto
    then have "\<not> (\<exists>mg \<in> set ?R. down mg \<noteq> None \<and> name mg = ?xs ! i)" by simp
    with iR i(4) il show False by auto
  qed
  have "j < length ?xs" using jl by simp
  from hole_breaks_prefix [OF d i(2) this inl out]
  show "\<not> prefix (sort (map fst ?l')) ?xs" .
qed

subsection \<open>The result of an operation and the outcome of the locked scope\<close>






subsection \<open>Every operation returns a result set\<close>





subsection \<open>A down run that skips a migration leaves a hole in the ledger\<close>

text \<open>
  C10. Take an operation that resolves to a down run over the range from the current index
  \<open>k - 1\<close> down to \<open>t + 1\<close>, in an environment whose collaborators do not fail, and let every
  backward action defined in the range succeed. Then a migration without backward action does
  not abort the run: the result has no error and one entry per migration of the range, newest
  first, \<open>Success\<close> for those with a backward action and \<open>NotExecuted\<close> for those without;
  the backward action of each of the former is called and its ledger record deleted, also
  when it comes after a skipped one, and the ledger afterwards is the old one without exactly
  these records, so the records of the skipped migrations remain. If some migration \<open>i\<close> of
  the range with a backward action precedes a migration \<open>j\<close> of the range without one, the
  ledger afterwards is not a prefix of the resolved names, and every following operation on the
  same source returns a corruption error and no results.
\<close>

theorem C10_skipped_migration_leaves_hole_in_ledger:
  assumes "calm env" and "resolveMigrations env src = Inr ms"
    and "sort_key (collation env) (map fst (ledger w)) = take k (map name ms)"
    and "k \<le> length ms"
    and "targetOf m \<lparr>migrations = ms, currentIndex = int k - 1\<rparr> = Inr (Some t)"
    and "- 1 \<le> t" and "t < int k - 1"
    and "\<forall>mg \<in> set (drop (nat (t + 1)) (take k ms)).
           \<forall>f u. down mg = Some f \<longrightarrow> fst (f u) = None"
  shows "fst (operate env m src w) =
           \<lparr>error = None,
            results = Some (map (\<lambda>mg. \<lparr>migrationName = name mg, direction = Down,
                 status = (if down mg = None then NotExecuted else Success)\<rparr>)
              (rev (drop (nat (t + 1)) (take k ms))))\<rparr> \<and>
         ledger (snd (operate env m src w)) =
           filter (\<lambda>row. \<not> (\<exists>mg \<in> set (drop (nat (t + 1)) (take k ms)).
                                down mg \<noteq> None \<and> name mg = fst row)) (ledger w) \<and>
         (\<forall>mg \<in> set (drop (nat (t + 1)) (take k ms)).
            down mg \<noteq> None \<longrightarrow>
              CallDown (name mg) \<in> set (since w (snd (operate env m src w))) \<and>
              DeleteLedger (name mg) \<in> set (since w (snd (operate env m src w)))) \<and>
         (\<forall>mg \<in> set (drop (nat (t + 1)) (take k ms)).
            down mg = None \<longrightarrow>
              (\<forall>row \<in> set (ledger w). fst row = name mg \<longrightarrow>
                 row \<in> set (ledger (snd (operate env m src w))))) \<and>
         (nat (t + 1) \<le> i \<and> i < j \<and> j < k \<and> down (ms ! i) \<noteq> None \<and> down (ms ! j) = None \<longrightarrow>
            \<not> prefix (sort (map fst (ledger (snd (operate env m src w))))) (map name ms) \<and>
            \<not> prefix (sort_key (collation env) (map fst (ledger (snd (operate env m src w)))))
                (map name ms) \<and>
            (\<forall>m2. \<exists>e. error (fst (operate env m2 src (snd (operate env m src w)))) = Some e \<and>
                      isCorruption e \<and>
                      results (fst (operate env m2 src (snd (operate env m src w)))) = None))"
proof -
  let ?R = "drop (nat (t + 1)) (take k ms)"
  let ?keep = "\<lambda>row :: string \<times> string. \<not> (\<exists>mg \<in> set ?R. down mg \<noteq> None \<and> name mg = fst row)"
  obtain r w' where op: "migrate env src (targetOf m) w = (r, w')"
    by (cases "migrate env src (targetOf m) w")
  then have o: "operate env m src w = (r, w')" by (simp add: operate_migrate)
  note s = migrate_calm_down [OF assms op]
  have d: "distinct (map name ms)" by (rule resolve_names(2) [OF assms(2)])
  have subR: "set ?R \<subseteq> set ms" by (meson set_drop_subset set_take_subset subset_trans)
  from s have A: "r = \<lparr>error = None,
            results = Some (map (\<lambda>mg. \<lparr>migrationName = name mg, direction = Down,
                 status = (if down mg = None then NotExecuted else Success)\<rparr>) (rev ?R))\<rparr>"
    and B: "ledger w' = filter ?keep (ledger w)"
    and C: "\<forall>mg \<in> set ?R. down mg \<noteq> None \<longrightarrow>
              CallDown (name mg) \<in> set (since w w') \<and> DeleteLedger (name mg) \<in> set (since w w')"
    by simp_all
  have D: "\<forall>mg \<in> set ?R. down mg = None \<longrightarrow>
      (\<forall>row \<in> set (ledger w). fst row = name mg \<longrightarrow> row \<in> set (ledger w'))"
  proof (intro ballI impI)
    fix mg row assume mg: "mg \<in> set ?R" "down mg = None"
      and row: "row \<in> set (ledger w)" "fst row = name mg"
    have "?keep row"
    proof
      assume "\<exists>mg' \<in> set ?R. down mg' \<noteq> None \<and> name mg' = fst row"
      then obtain mg' where mg': "mg' \<in> set ?R" "down mg' \<noteq> None" "name mg' = fst row"
        by blast
      from mg'(1) mg(1) subR have "mg' \<in> set ms" "mg \<in> set ms" by blast+
      with d have "mg' = mg" using mg'(3) row(2) by (metis same_name_same_migration)
      with mg(2) mg'(2) show False by simp
    qed
    with row(1) show "row \<in> set (ledger w')" unfolding B by simp
  qed
  have E: "\<not> prefix (sort (map fst (ledger w'))) (map name ms) \<and>
      \<not> prefix (sort_key (collation env) (map fst (ledger w'))) (map name ms) \<and>
      (\<forall>m2. \<exists>e. error (fst (operate env m2 src w')) = Some e \<and> isCorruption e \<and>
                results (fst (operate env m2 src w')) = None)"
    if h: "nat (t + 1) \<le> i \<and> i < j \<and> j < k \<and> down (ms ! i) \<noteq> None \<and> down (ms ! j) = None"
  proof -
    from h have i: "nat (t + 1) \<le> i" "i < j" "j < k" "down (ms ! i) \<noteq> None"
      "down (ms ! j) = None" by simp_all
    note hl = hole_in_ledger [OF d assms(3,4) i]
    from hl(1) have np: "\<not> prefix (sort (map fst (ledger w'))) (map name ms)" unfolding B .
    from hl(2) have dl: "distinct (map fst (ledger w'))" unfolding B .
    have "\<exists>e. error (fst (operate env m2 src w')) = Some e \<and> isCorruption e \<and>
                results (fst (operate env m2 src w')) = None" for m2
    proof -
      obtain r2 w2 where op2: "migrate env src (targetOf m2) w' = (r2, w2)"
        by (cases "migrate env src (targetOf m2) w'")
      from migrate_corrupt [OF assms(2) dl np op2] assms(1)
      have "planningFailure r2" "\<exists>e. error r2 = Some e \<and> isCorruption e" by simp_all
      with op2 show ?thesis by (auto simp: operate_migrate planningFailure_def)
    qed
    moreover have "\<not> prefix (sort_key (collation env) (map fst (ledger w'))) (map name ms)"
      using resolve_names(3) [OF assms(2)] np by (rule read_not_prefix)
    ultimately show ?thesis using np by simp
  qed
  from A B C D E o show ?thesis by simp
qed


theorem C10_skipped_migration_leaves_hole_in_ledger_witness:
  "fst (operate (calmEnv False) (To NO_MIGRATIONS) oneWayB migratedABC) =
     \<lparr>error = None,
      results = Some [\<lparr>migrationName = ''c'', direction = Down, status = Success\<rparr>,
                      \<lparr>migrationName = ''b'', direction = Down, status = NotExecuted\<rparr>,
                      \<lparr>migrationName = ''a'', direction = Down, status = Success\<rparr>]\<rparr> \<and>
   ledger (snd (operate (calmEnv False) (To NO_MIGRATIONS) oneWayB migratedABC)) =
     [(''b'', ''2021-12-31T00:00:01.000Z'')] \<and>
   CallDown ''a'' \<in>
     set (since migratedABC (snd (operate (calmEnv False) (To NO_MIGRATIONS) oneWayB migratedABC))) \<and>
   DeleteLedger ''a'' \<in>
     set (since migratedABC (snd (operate (calmEnv False) (To NO_MIGRATIONS) oneWayB migratedABC))) \<and>
   \<not> prefix
       (sort (map fst
          (ledger (snd (operate (calmEnv False) (To NO_MIGRATIONS) oneWayB migratedABC)))))
       [''a'', ''b'', ''c''] \<and>
   (\<exists>e. error (fst (operate (calmEnv False) ToLatest oneWayB
            (snd (operate (calmEnv False) (To NO_MIGRATIONS) oneWayB migratedABC)))) = Some e \<and>
        isCorruption e)"
proof -
  let ?ms = "[\<lparr>up = Some (applies ''+a''), down = Some (applies ''-a''), name = ''a''\<rparr>,
              \<lparr>up = Some (applies ''+b''), down = None, name = ''b''\<rparr>,
              \<lparr>up = Some (applies ''+c''), down = Some (applies ''-c''), name = ''c''\<rparr>]"
  let ?w' = "snd (operate (calmEnv False) (To NO_MIGRATIONS) oneWayB migratedABC)"
  have c: "calm (calmEnv False :: string list env)" by simp
  have res: "resolveMigrations (calmEnv False) oneWayB = Inr ?ms"
    by (simp add: oneWayB_def resolve_three literal_def)
  have led: "sort_key (collation (calmEnv False :: string list env))
      (map fst (ledger migratedABC)) = take 3 (map name ?ms)"
    by (simp add: migratedABC_def calmEnv_def)
  have k: "3 \<le> length ?ms" by simp
  have tg: "targetOf (To NO_MIGRATIONS) \<lparr>migrations = ?ms, currentIndex = int 3 - 1\<rparr> =
      Inr (Some (- 1))" by (simp add: targetOf_def targetTo_def)
  have t: "- 1 \<le> (- 1 :: int)" "(- 1 :: int) < int 3 - 1" by simp_all
  have ok: "\<forall>mg \<in> set (drop (nat (- 1 + 1)) (take 3 ?ms)).
      \<forall>f u. down mg = Some f \<longrightarrow> fst (f u) = None"
    by (auto simp: applies_def)
  note inst = C10_skipped_migration_leaves_hole_in_ledger
      [OF c res led k tg t ok, where i = 0 and j = "Suc 0"]
  note A = inst [THEN conjunct1]
  note B = inst [THEN conjunct2, THEN conjunct1]
  note C = inst [THEN conjunct2, THEN conjunct2, THEN conjunct1]
  note E = inst [THEN conjunct2, THEN conjunct2, THEN conjunct2, THEN conjunct2]
  have hole: "nat (- 1 + 1) \<le> 0 \<and> 0 < Suc 0 \<and> Suc 0 < 3 \<and> down (?ms ! 0) \<noteq> None \<and>
      down (?ms ! Suc 0) = None" by simp
  note E' = E [THEN mp, OF hole]
  from A have 1: "fst (operate (calmEnv False) (To NO_MIGRATIONS) oneWayB migratedABC) =
     \<lparr>error = None,
      results = Some [\<lparr>migrationName = ''c'', direction = Down, status = Success\<rparr>,
                      \<lparr>migrationName = ''b'', direction = Down, status = NotExecuted\<rparr>,
                      \<lparr>migrationName = ''a'', direction = Down, status = Success\<rparr>]\<rparr>"
    by simp
  from B have 2: "ledger ?w' = [(''b'', ''2021-12-31T00:00:01.000Z'')]"
    by (simp add: migratedABC_def)
  from C have 3: "CallDown ''a'' \<in> set (since migratedABC ?w')"
    "DeleteLedger ''a'' \<in> set (since migratedABC ?w')" by simp_all
  from E' [THEN conjunct1]
  have 4: "\<not> prefix (sort (map fst (ledger ?w'))) [''a'', ''b'', ''c'']" by simp
  note all = E' [THEN conjunct2, THEN conjunct2]
  from all have "\<exists>e. error (fst (operate (calmEnv False) ToLatest oneWayB ?w')) = Some e \<and>
        isCorruption e \<and> results (fst (operate (calmEnv False) ToLatest oneWayB ?w')) = None"
    by (rule spec)
  then have 5: "\<exists>e. error (fst (operate (calmEnv False) ToLatest oneWayB ?w')) = Some e \<and>
        isCorruption e" by (elim exE conjE) (rule exI, rule conjI)
  from 1 2 3 4 5 show ?thesis by (simp only: simp_thms)
qed

subsection \<open>The prefix invariant\<close>

text \<open>
  C2. For every resolved migration list \<open>M\<close> (sorted by name) and every ledger whose executed
  names, in sort order, are not a prefix of the names of \<open>M\<close>, planning fails with a
  corruption error before any migration's up or down action is invoked and before any ledger
  mutation: the corruption check itself throws one of its two errors on the names as the
  database returns them, whatever order that is; every public operation
  then returns an error without results, leaves the ledger and the user's database as they
  were and records no call of an action and no ledger insertion or deletion; and when no
  collaborator fails, the error returned is that corruption error. The ledger's names are
  distinct, \<^verbatim>\<open>name\<close> being the primary key of the ledger table.
\<close>

theorem C2_corrupted_ledger_aborts_planning:
  assumes "resolveMigrations env src = Inr M"
    and "distinct (map fst (ledger w))"
    and "\<not> prefix (sort (map fst (ledger w))) (map name M)"
  shows "(\<exists>e. ensureMigrationsNotCorrupted M
                (sort_key (collation env) (map fst (ledger w))) = Some e \<and>
              isCorruption e) \<and>
         planningFailure (fst (operate env m src w)) \<and>
         ledger (snd (operate env m src w)) = ledger w \<and>
         user (snd (operate env m src w)) = user w \<and>
         trace (snd (operate env m src w)) = trace w @ since w (snd (operate env m src w)) \<and>
         list_all (\<lambda>e. kind e \<noteq> Step) (since w (snd (operate env m src w))) \<and>
         (calm env \<longrightarrow>
            (\<exists>e. error (fst (operate env m src w)) = Some e \<and> isCorruption e))"
proof -
  obtain r w' where op: "migrate env src (targetOf m) w = (r, w')"
    by (cases "migrate env src (targetOf m) w")
  from migrate_corrupt [OF assms op] op show ?thesis by (simp add: operate_migrate)
qed

theorem C2_corrupted_ledger_aborts_planning_witness:
  "error (fst (operate (calmEnv False) ToLatest abc onlyB)) = Some (CorruptedOrder ''b'' 0 ''a'') \<and>
   planningFailure (fst (operate (calmEnv False) ToLatest abc onlyB)) \<and>
   ledger (snd (operate (calmEnv False) ToLatest abc onlyB)) = ledger onlyB \<and>
   user (snd (operate (calmEnv False) ToLatest abc onlyB)) = user onlyB \<and>
   list_all (\<lambda>e. kind e \<noteq> Step) (since onlyB (snd (operate (calmEnv False) ToLatest abc onlyB)))"
proof -
  from resolve_abc [of False] obtain M where M: "resolveMigrations (calmEnv False) abc = Inr M"
    "map name M = [''a'', ''b'', ''c'']"
    by (elim exE conjE) (rule that)
  have d: "distinct (map fst (ledger onlyB))" by (simp add: onlyB_def)
  have p: "\<not> prefix (sort (map fst (ledger onlyB))) (map name M)"
    by (simp add: onlyB_def M(2))
  have e: "error (fst (operate (calmEnv False) ToLatest abc onlyB)) =
      Some (CorruptedOrder ''b'' 0 ''a'')"
    by code_simp
  from C2_corrupted_ledger_aborts_planning [OF M(1) d p, of ToLatest] e show ?thesis
    by simp
qed

subsection \<open>Partial failure\<close>

lemma three_run_try:
  assumes "calm env" and "ledger v = []"
    and "up (own A) = Some f" and "f (user v) = (None, u1)"
    and "up (own B) = Some g" and "g u1 = (Some e, u2)"
  shows "run_try env (three A B C) targetLatest h v =
     (Inl (MigrationResultSetError
        \<lparr>error = Some e,
         results = Some
           [\<lparr>migrationName = ''a'', direction = Up, status = Success\<rparr>,
            \<lparr>migrationName = ''b'', direction = Up, status = Error\<rparr>,
            \<lparr>migrationName = ''c'', direction = Up, status = NotExecuted\<rparr>]\<rparr>),
      v\<lparr>ledger := [(''a'', now env (trace v @ [AcquireLock h, SelectLedger, GetTarget,
                                                CallUp ''a'']))],
        user := u2,
        trace := trace v @ [AcquireLock h, SelectLedger, GetTarget, CallUp ''a'',
                            InsertLedger ''a'', CallUp ''b'']\<rparr>)"
proof -
  let ?ms = "[\<lparr>up = Some f, down = down (own A), name = ''a''\<rparr>,
          \<lparr>up = Some g, down = down (own B), name = ''b''\<rparr>,
          \<lparr>up = up (own C), down = down (own C), name = ''c''\<rparr>]"
  have res: "resolveMigrations env (three A B C) = Inr ?ms"
    using assms(3,5) by (simp add: resolve_three)
  let ?st = "\<lparr>migrations = ?ms, currentIndex = int 0 - 1\<rparr>"
  let ?v0 = "emit (AcquireLock h) v"
  let ?v2 = "emit GetTarget (emit SelectLedger ?v0)"
  have sel: "selectFails env (trace ?v0) = None" and
    acq: "acquireMigrationLock env (trace v) = None" and
    ins: "\<And>t. insertFails env t = None"
    using assms(1) by (simp_all add: calm_def)
  have "sort_key (collation env) (map fst (ledger ?v0)) = take 0 (map name ?ms)"
    using assms(2) by simp
  from getState_position [OF sel res this]
  have gs: "getState env (three A B C) ?v0 = (Inr ?st, emit SelectLedger ?v0)" by simp
  have tg: "targetLatest ?st = Inr (Some 2)" by (simp add: targetLatest_def)
  have rt: "run_try env (three A B C) targetLatest h v = migrateUp_private env ?st 2 ?v2"
    using acq gs tg by (simp add: run_try_def)
  have pl: "planUp ?ms 0 2 [] =
      Inr [planned Up \<lparr>up = Some f, down = down (own A), name = ''a''\<rparr>,
           planned Up \<lparr>up = Some g, down = down (own B), name = ''b''\<rparr>,
           planned Up \<lparr>up = up (own C), down = down (own C), name = ''c''\<rparr>]"
    by (subst planUp_eq) simp_all
  show ?thesis
    unfolding rt
    by (simp add: migrateUp_private_def pl execUp_upRun planned_def insertInto_def ins
        assms(2,4,6) stepFailed_def emit_def)
qed

text \<open>
  C3, as amended. With migrations named \<open>a\<close>, \<open>b\<close>, \<open>c\<close>, no migration executed yet, the
  forward actions of \<open>a\<close> and \<open>b\<close> being own properties of their objects (the spread in
  \<^verbatim>\<open>#resolveMigrations\<close> drops inherited ones), that of \<open>a\<close> succeeding and that of \<open>b\<close>
  failing, \<^verbatim>\<open>migrateToLatest\<close> returns the results \<open>a\<close>: Success, \<open>b\<close>: Error, \<open>c\<close>:
  NotExecuted, all of direction Up, together with the error of \<open>b\<close>, and \<open>c\<close> is never
  attempted. Without transactional DDL the ledger afterwards contains exactly the record for
  \<open>a\<close>; with transactional DDL the whole batch is rolled back and the ledger and the database
  are as before the call. No collaborator is assumed to fail.
\<close>

theorem C3_partial_failure_truncation:
  assumes "calm env" and "ledger w = []"
    and "up (own A) = Some f" and "f (user w) = (None, u1)"
    and "up (own B) = Some g" and "g u1 = (Some e, u2)"
  shows "fst (migrateToLatest env (three A B C) w) =
           \<lparr>error = Some e,
            results = Some
              [\<lparr>migrationName = ''a'', direction = Up, status = Success\<rparr>,
               \<lparr>migrationName = ''b'', direction = Up, status = Error\<rparr>,
               \<lparr>migrationName = ''c'', direction = Up, status = NotExecuted\<rparr>]\<rparr> \<and>
         map fst (ledger (snd (migrateToLatest env (three A B C) w))) =
           (if supportsTransactionalDdl env then [] else [''a'']) \<and>
         user (snd (migrateToLatest env (three A B C) w)) =
           (if supportsTransactionalDdl env then user w else u2) \<and>
         list_all (\<lambda>ev. \<not> touches ''c'' ev) (since w (snd (migrateToLatest env (three A B C) w))) \<and>
         CallUp ''b'' \<in> set (since w (snd (migrateToLatest env (three A B C) w)))"
proof -
  obtain r w' where op: "migrate env (three A B C) targetLatest w = (r, w')"
    by (cases "migrate env (three A B C) targetLatest w")
  from assms(1) op have "r =
           \<lparr>error = Some e,
            results = Some
              [\<lparr>migrationName = ''a'', direction = Up, status = Success\<rparr>,
               \<lparr>migrationName = ''b'', direction = Up, status = Error\<rparr>,
               \<lparr>migrationName = ''c'', direction = Up, status = NotExecuted\<rparr>]\<rparr> \<and>
         map fst (ledger w') = (if supportsTransactionalDdl env then [] else [''a'']) \<and>
         user w' = (if supportsTransactionalDdl env then user w else u2) \<and>
         list_all (\<lambda>ev. \<not> touches ''c'' ev) (since w w') \<and> CallUp ''b'' \<in> set (since w w')"
  proof (cases rule: migrate_calm)
    case (1 v x v')
    let ?h = "handle env"
    have l: "ledger v = []" using 1(1) assms(2) by simp
    have a: "f (user v) = (None, u1)" using 1(2) assms(4) by simp
    note rt = three_run_try [OF assms(1) l assms(3) a assms(5,6), of C ?h]
    from rt 1(4) have x: "x = Inl (MigrationResultSetError
        \<lparr>error = Some e,
         results = Some
           [\<lparr>migrationName = ''a'', direction = Up, status = Success\<rparr>,
            \<lparr>migrationName = ''b'', direction = Up, status = Error\<rparr>,
            \<lparr>migrationName = ''c'', direction = Up, status = NotExecuted\<rparr>]\<rparr>)"
      and v': "map fst (ledger v') = [''a'']" "user v' = u2"
        "trace v' = trace v @ [AcquireLock ?h, SelectLedger, GetTarget, CallUp ''a'',
                            InsertLedger ''a'', CallUp ''b'']"
      by auto
    from 1(3) obtain bs where bs: "trace v = trace w @ bs"
      "list_all (\<lambda>e. kind e = Bootstrap \<or> kind e = Context) bs" by (auto simp: grows_iff)
    from 1(8) obtain post where post: "trace w' = trace v' @ ReleaseLock ?h # post"
      "list_all (\<lambda>e. kind e = Context) post" by auto
    let ?es = "bs @ [AcquireLock ?h, SelectLedger, GetTarget, CallUp ''a'',
                            InsertLedger ''a'', CallUp ''b''] @ ReleaseLock ?h # post"
    have tr: "trace w' = trace w @ ?es" using bs(1) v'(3) post(1) by simp
    have q: "\<And>n ev. kind ev \<noteq> Step \<Longrightarrow> \<not> touches n ev"
    proof -
      fix n ev show "kind ev \<noteq> Step \<Longrightarrow> \<not> touches n ev" by (cases ev) simp_all
    qed
    have "list_all (\<lambda>ev. \<not> touches ''c'' ev) bs" "list_all (\<lambda>ev. \<not> touches ''c'' ev) post"
      using bs(2) post(2) q by (auto simp: list_all_iff)
    then have "list_all (\<lambda>ev. \<not> touches ''c'' ev) ?es" by simp
    moreover have "since w w' = ?es" using tr by (rule since_append)
    ultimately have t: "list_all (\<lambda>ev. \<not> touches ''c'' ev) (since w w')"
      "CallUp ''b'' \<in> set (since w w')" by simp_all
    from 1(5) x have "r = \<lparr>error = Some e,
         results = Some
           [\<lparr>migrationName = ''a'', direction = Up, status = Success\<rparr>,
            \<lparr>migrationName = ''b'', direction = Up, status = Error\<rparr>,
            \<lparr>migrationName = ''c'', direction = Up, status = NotExecuted\<rparr>]\<rparr>"
      by (simp add: settle_def)
    moreover from 1(6) x v'(1) assms(2)
    have "map fst (ledger w') = (if supportsTransactionalDdl env then [] else [''a''])" by simp
    moreover from 1(7) x v'(2)
    have "user w' = (if supportsTransactionalDdl env then user w else u2)" by simp
    ultimately show ?thesis using t by simp
  qed
  with op show ?thesis by (simp add: migrateToLatest_def)
qed

theorem C3_partial_failure_truncation_witness:
  "fst (migrateToLatest (calmEnv False)
          (three (literal (applies ''+a'') None) (literal fails None)
                 (literal (applies ''+c'') None)) fresh) =
     \<lparr>error = Some (Foreign ''boom''),
      results = Some
        [\<lparr>migrationName = ''a'', direction = Up, status = Success\<rparr>,
         \<lparr>migrationName = ''b'', direction = Up, status = Error\<rparr>,
         \<lparr>migrationName = ''c'', direction = Up, status = NotExecuted\<rparr>]\<rparr> \<and>
   map fst (ledger (snd (migrateToLatest (calmEnv False)
          (three (literal (applies ''+a'') None) (literal fails None)
                 (literal (applies ''+c'') None)) fresh))) = [''a''] \<and>
   map fst (ledger (snd (migrateToLatest (calmEnv True)
          (three (literal (applies ''+a'') None) (literal fails None)
                 (literal (applies ''+c'') None)) fresh))) = []"
proof -
  have c: "calm (calmEnv False :: string list env)" "calm (calmEnv True :: string list env)"
    by simp_all
  have l: "ledger fresh = []" by (simp add: fresh_def)
  have oa: "up (own (literal (applies ''+a'') None)) = Some (applies ''+a'')"
    and ob: "up (own (literal fails None :: string list object)) = Some fails"
    by (simp_all add: literal_def)
  have a: "applies ''+a'' (user fresh) = (None, [''+a''])"
    by (simp add: fresh_def applies_def)
  have b: "fails [''+a''] = (Some (Foreign ''boom''), [''+a''])"
    by (simp add: fails_def)
  have tx: "\<not> supportsTransactionalDdl (calmEnv False :: string list env)"
    "supportsTransactionalDdl (calmEnv True :: string list env)"
    by (simp_all add: calmEnv_def)
  from C3_partial_failure_truncation [OF c(1) l oa a ob b, of "literal (applies ''+c'') None"]
       C3_partial_failure_truncation [OF c(2) l oa a ob b, of "literal (applies ''+c'') None"]
       tx
  show ?thesis by simp
qed

text \<open>
  The claim as stated fails for an adapter with transactional DDL: the failure rolls the
  transaction back, and the record of \<open>a\<close> with it. It also fails when \<open>a\<close> is an instance
  of a class: its \<^verbatim>\<open>up\<close> method is lost in \<^verbatim>\<open>#resolveMigrations\<close> and the step of \<open>a\<close>
  itself fails.
\<close>

theorem C3_counterexample:
  "map fst (ledger (snd (migrateToLatest (calmEnv True) abc fresh))) \<noteq> [''a''] \<and>
   fst (migrateToLatest (calmEnv False) byClass fresh) =
     \<lparr>error = Some TypeError,
      results = Some [\<lparr>migrationName = ''a'', direction = Up, status = Error\<rparr>,
                      \<lparr>migrationName = ''b'', direction = Up, status = NotExecuted\<rparr>,
                      \<lparr>migrationName = ''c'', direction = Up, status = NotExecuted\<rparr>]\<rparr>"
  by code_simp

subsection \<open>Target resolution of migrateTo\<close>

lemma targetTo_missing:
  "n \<notin> name ` set (migrations st) \<Longrightarrow> targetTo (Name n) st = Inl (MigrationDoesNotExist n)"
  by (auto simp: targetTo_def Let_def findIndex_none_iff image_iff)

lemma targetTo_present:
  assumes "distinct (map name ms)" and "i < length ms"
  shows "targetTo (Name (name (ms ! i))) \<lparr>migrations = ms, currentIndex = c\<rparr> = Inr (Some (int i))"
  using findIndex_nth [OF assms] by (simp add: targetTo_def Let_def)

lemma run_try_missing_target:
  assumes "resolveMigrations env src = Inr ms" and "ms \<noteq> []" and "n \<notin> name ` set ms"
    and "run_try env src (targetTo (Name n)) h v = (x, v')"
  shows "(\<exists>e. x = Inl (Plain e)) \<and> ledger v' = ledger v \<and> user v' = user v \<and>
         grows (\<lambda>e. kind e = Lock \<or> kind e = Planning) v v'"
  using assms(4)
proof (cases rule: run_try_cases)
  case (lock e)
  then show ?thesis by (simp add: growsI)
next
  case (plan e)
  note gw = getState_world [OF plan(2)]
  from gw(3) have "grows (\<lambda>e. kind e = Lock \<or> kind e = Planning) (emit (AcquireLock h) v) v'"
    by (rule grows_mono) simp
  then have "grows (\<lambda>e. kind e = Lock \<or> kind e = Planning) v v'"
    by (rule grows_emit_left) simp
  with gw(1,2) plan(3) show ?thesis by simp
next
  case (empty st)
  with getState_Inr(1) [OF empty(2)] assms(1,2) show ?thesis by simp
next
  case (target st v1 e)
  note gw = getState_world [OF target(2)]
  from gw(3) have "grows (\<lambda>e. kind e = Lock \<or> kind e = Planning) (emit (AcquireLock h) v) v1"
    by (rule grows_mono) simp
  then have "grows (\<lambda>e. kind e = Lock \<or> kind e = Planning) v v1"
    by (rule grows_emit_left) simp
  then have "grows (\<lambda>e. kind e = Lock \<or> kind e = Planning) v (emit GetTarget v1)"
    by (rule grows_emit) simp
  with gw(1,2) target(5,6) show ?thesis by simp
next
  case (noop st v1)
  from getState_Inr(1) [OF noop(2)] assms(1) have "migrations st = ms" by simp
  with assms(3) noop(4) show ?thesis by (simp add: targetTo_missing)
next
  case (down st v1 t)
  from getState_Inr(1) [OF down(2)] assms(1) have "migrations st = ms" by simp
  with assms(3) down(4) show ?thesis by (simp add: targetTo_missing)
next
  case (up st v1 t)
  from getState_Inr(1) [OF up(2)] assms(1) have "migrations st = ms" by simp
  with assms(3) up(4) show ?thesis by (simp add: targetTo_missing)
qed

lemma migrateTo_missing:
  assumes "resolveMigrations env src = Inr ms" and "ms \<noteq> []" and "n \<notin> name ` set ms"
    and op: "migrate env src (targetTo (Name n)) w = (r, w')"
  shows "planningFailure r" and "ledger w' = ledger w" and "user w' = user w"
    and "trace w' = trace w @ since w w'" and "list_all (\<lambda>e. kind e \<noteq> Step) (since w w')"
    and "calm env \<Longrightarrow> prefix (sort_key (collation env) (map fst (ledger w))) (map name ms) \<Longrightarrow>
           error r = Some (MigrationDoesNotExist n)"
proof -
  have idle: "\<And>h v x v'. ledger v = ledger w \<Longrightarrow> user v = user w \<Longrightarrow>
        run_try env src (targetTo (Name n)) h v = (x, v') \<Longrightarrow>
        (\<exists>e. x = Inl (Plain e)) \<and> ledger v' = ledger v \<and> user v' = user v \<and>
        grows (\<lambda>e. kind e = Lock \<or> kind e = Planning) v v'"
  proof -
    fix h v x v'
    assume "run_try env src (targetTo (Name n)) h v = (x, v')"
    from run_try_missing_target [OF assms(1-3) this]
    show "(\<exists>e. x = Inl (Plain e)) \<and> ledger v' = ledger v \<and> user v' = user v \<and>
        grows (\<lambda>e. kind e = Lock \<or> kind e = Planning) v v'" .
  qed
  have i: "ledger w' = ledger w \<and> user w' = user w \<and>
      grows (\<lambda>e. (kind e = Lock \<or> kind e = Planning) \<or> kind e = Bootstrap \<or>
                 kind e = Context \<or> kind e = Lock) w w' \<and>
      (planningFailure r \<or> (\<exists>x. (\<exists>e. x = Inl (Plain e)) \<and> r = settle x))"
    by (rule migrate_idle [OF op idle])
  from i show "ledger w' = ledger w" "user w' = user w" by simp_all
  from i show "planningFailure r" by (auto simp: planningFailure_def settle_def)
  from i have "grows (\<lambda>e. (kind e = Lock \<or> kind e = Planning) \<or> kind e = Bootstrap \<or>
                      kind e = Context \<or> kind e = Lock) w w'" by simp
  then have "grows (\<lambda>e. kind e \<noteq> Step) w w'" by (rule grows_mono) auto
  from since_grows [OF this]
  show "trace w' = trace w @ since w w'" "list_all (\<lambda>e. kind e \<noteq> Step) (since w w')"
    by simp_all
  show "error r = Some (MigrationDoesNotExist n)"
    if "calm env" and pre: "prefix (sort_key (collation env) (map fst (ledger w))) (map name ms)"
    using that(1) op
  proof (cases rule: migrate_calm)
    case (1 v x v')
    let ?v0 = "emit (AcquireLock (handle env)) v"
    have sel: "selectFails env (trace ?v0) = None" and
      acq: "acquireMigrationLock env (trace v) = None"
      using that(1) by (simp_all add: calm_def)
    have ok: "ensureMigrationsNotCorrupted ms
        (sort_key (collation env) (map fst (ledger w))) = None"
      using pre by (simp add: ensure_None_iff)
    obtain st where st: "getState env src ?v0 = (Inr st, emit SelectLedger ?v0)"
      "migrations st = ms"
      using assms(1) 1(1) ok by (simp add: getState_select [OF sel])
    from st(2) assms(3) have "targetTo (Name n) st = Inl (MigrationDoesNotExist n)"
      by (simp add: targetTo_missing)
    with 1(4) acq st assms(2) have "x = Inl (Plain (MigrationDoesNotExist n))"
      by (simp add: run_try_def)
    with 1(5) show ?thesis by (simp add: settle_def)
  qed
qed

text \<open>
  C4, as amended. For every \<^verbatim>\<open>migrateTo\<close> call: the \<^verbatim>\<open>NO_MIGRATIONS\<close> sentinel resolves to
  target index \<open>-1\<close>; a target name present in the resolved list resolves to that
  migration's index in the sorted list; and for every target name not present in a non-empty
  resolved list the call is a planning failure returning an error without results, which
  runs no step and, when no collaborator fails and the ledger as read is sound, is the error
  \<^verbatim>\<open>migration "..." doesn't exist\<close>. On an empty resolved list the target is never looked up:
  with an empty ledger and no collaborator failing, the call returns \<open>{results: []}\<close> whatever
  the name.
\<close>

theorem C4_migrateTo_target_resolution:
  assumes "resolveMigrations env src = Inr ms"
  shows "targetTo NO_MIGRATIONS \<lparr>migrations = ms, currentIndex = c\<rparr> = Inr (Some (- 1)) \<and>
         (\<forall>i < length ms.
            targetTo (Name (name (ms ! i))) \<lparr>migrations = ms, currentIndex = c\<rparr> =
              Inr (Some (int i))) \<and>
         (ms \<noteq> [] \<and> n \<notin> name ` set ms \<longrightarrow>
            planningFailure (fst (migrateTo env src (Name n) w)) \<and>
            ledger (snd (migrateTo env src (Name n) w)) = ledger w \<and>
            user (snd (migrateTo env src (Name n) w)) = user w \<and>
            list_all (\<lambda>e. kind e \<noteq> Step) (since w (snd (migrateTo env src (Name n) w))) \<and>
            (calm env \<and> prefix (sort_key (collation env) (map fst (ledger w))) (map name ms) \<longrightarrow>
               error (fst (migrateTo env src (Name n) w)) = Some (MigrationDoesNotExist n))) \<and>
         (ms = [] \<and> calm env \<and> ledger w = [] \<longrightarrow>
            fst (migrateTo env src (Name n) w) = noResults)"
proof -
  have 1: "targetTo NO_MIGRATIONS \<lparr>migrations = ms, currentIndex = c\<rparr> = Inr (Some (- 1))"
    by (simp add: targetTo_def)
  have 2: "\<forall>i < length ms.
      targetTo (Name (name (ms ! i))) \<lparr>migrations = ms, currentIndex = c\<rparr> = Inr (Some (int i))"
    using resolve_names(2) [OF assms] by (simp add: targetTo_present)
  obtain r w' where op: "migrate env src (targetTo (Name n)) w = (r, w')"
    by (cases "migrate env src (targetTo (Name n)) w")
  have 3: "planningFailure r \<and> ledger w' = ledger w \<and> user w' = user w \<and>
      list_all (\<lambda>e. kind e \<noteq> Step) (since w w') \<and>
      (calm env \<and> prefix (sort_key (collation env) (map fst (ledger w))) (map name ms) \<longrightarrow>
         error r = Some (MigrationDoesNotExist n))"
    if "ms \<noteq> []" "n \<notin> name ` set ms"
    using migrateTo_missing [OF assms that op] by simp
  have 4: "r = noResults" if "ms = []" "calm env" "ledger w = []"
  proof -
    from assms that(1) have "resolveMigrations env src = Inr []" by simp
    from migrate_empty [OF this op] that(2,3) show ?thesis by simp
  qed
  from 1 2 3 4 op show ?thesis by (simp add: migrateTo_def)
qed


theorem C4_migrateTo_target_resolution_witness:
  "targetTo NO_MIGRATIONS \<lparr>migrations = [], currentIndex = 0\<rparr> =
     (Inr (Some (- 1)) :: exn + int option) \<and>
   (case resolveMigrations (calmEnv False) abc of
      Inr M \<Rightarrow> targetTo (Name ''b'') \<lparr>migrations = M, currentIndex = - 1\<rparr>
    | Inl e \<Rightarrow> Inl e) = Inr (Some 1) \<and>
   fst (migrateTo (calmEnv False) abc (Name ''x'') fresh) =
     \<lparr>error = Some (MigrationDoesNotExist ''x''), results = None\<rparr> \<and>
   ledger (snd (migrateTo (calmEnv False) abc (Name ''x'') fresh)) = [] \<and>
   fst (migrateTo (calmEnv False) noSource (Name ''x'') fresh) = noResults"
proof -
  from resolve_abc [of False] obtain M where M: "resolveMigrations (calmEnv False) abc = Inr M"
    "map name M = [''a'', ''b'', ''c'']"
    by (elim exE conjE) (rule that)
  from M(2) have len: "length M = 3" by (metis length_map length_Cons list.size(3) numeral_3_eq_3)
  from M(2) have b: "name (M ! 1) = ''b''"
    by (metis len nth_map nth_Cons_0 nth_Cons_Suc One_nat_def one_less_numeral_iff semiring_norm(77))
  have ne: "M \<noteq> []" using len by auto
  have x: "''x'' \<notin> name ` set M"
  proof -
    have "name ` set M = set (map name M)" by simp
    then show ?thesis unfolding M(2) by simp
  qed
  have p: "prefix (sort_key (collation (calmEnv False :: string list env))
                     (map fst (ledger fresh))) (map name M)" by (simp add: fresh_def)
  have l: "ledger fresh = []" by (simp add: fresh_def)
  note t = C4_migrateTo_target_resolution [OF M(1), of "- 1" "''x''" fresh]
  note u = C4_migrateTo_target_resolution [OF resolve_noSource [of False], of 0 "''x''" fresh]
  from t len b have 2: "targetTo (Name ''b'') \<lparr>migrations = M, currentIndex = - 1\<rparr> = Inr (Some 1)"
    by (metis One_nat_def int_ops(2) one_less_numeral_iff semiring_norm(77))
  from t ne x p have 3: "planningFailure (fst (migrateTo (calmEnv False) abc (Name ''x'') fresh))"
    "ledger (snd (migrateTo (calmEnv False) abc (Name ''x'') fresh)) = ledger fresh"
    "error (fst (migrateTo (calmEnv False) abc (Name ''x'') fresh)) =
       Some (MigrationDoesNotExist ''x'')"
    by simp_all
  from 3(1,3) have 3: "fst (migrateTo (calmEnv False) abc (Name ''x'') fresh) =
     \<lparr>error = Some (MigrationDoesNotExist ''x''), results = None\<rparr>"
    by (simp add: planningFailure_def)
  from u l have 4: "fst (migrateTo (calmEnv False) noSource (Name ''x'') fresh) = noResults"
    by simp
  from u have 1: "targetTo NO_MIGRATIONS \<lparr>migrations = [], currentIndex = 0\<rparr> =
     (Inr (Some (- 1)) :: exn + int option)" by (simp add: targetTo_def)
  from 1 2 3 4 \<open>ledger (snd (migrateTo (calmEnv False) abc (Name ''x'') fresh)) = ledger fresh\<close> l M(1)
  show ?thesis by simp
qed

text \<open>
  The claim as stated fails on the empty resolved list: a name that does not exist gives an
  empty result list there, not an error.
\<close>

theorem C4_counterexample:
  "\<not> planningFailure (fst (migrateTo (calmEnv False) noSource (Name ''x'') fresh))"
  by code_simp

subsection \<open>One step up, one step down\<close>

lemma one_step_bounded:
  assumes "calm env" and "resolveMigrations env src = Inr ms" and "ms \<noteq> []"
    and "sort_key (collation env) (map fst (ledger w)) = take k (map name ms)"
    and "k \<le> length ms"
  shows "fst (getState env src w) = Inr \<lparr>migrations = ms, currentIndex = int k - 1\<rparr> \<and>
    targetUp \<lparr>migrations = ms, currentIndex = int k - 1\<rparr> =
      Inr (Some (min (int k - 1 + 1) (int (length ms) - 1))) \<and>
    targetDown \<lparr>migrations = ms, currentIndex = int k - 1\<rparr> =
      Inr (Some (max (int k - 1 - 1) (- 1))) \<and>
    (\<exists>rs. results (fst (migrateUp env src w)) = Some rs \<and>
       map migrationName rs = (if k < length ms then [name (ms ! k)] else []) \<and>
       list_all (\<lambda>p. direction p = Up) rs) \<and>
    (\<exists>rs. results (fst (migrateDown env src w)) = Some rs \<and>
       map migrationName rs = (if 0 < k then [name (ms ! (k - 1))] else []) \<and>
       list_all (\<lambda>p. direction p = Down) rs) \<and>
    (k = length ms \<longrightarrow>
       (\<forall>n. fst (migrateUp env src (repeatedly (migrateUp env src) n w)) = noResults \<and>
            ledger (repeatedly (migrateUp env src) n w) = ledger w \<and>
            user (repeatedly (migrateUp env src) n w) = user w)) \<and>
    (k = 0 \<longrightarrow>
       (\<forall>n. fst (migrateDown env src (repeatedly (migrateDown env src) n w)) = noResults \<and>
            ledger (repeatedly (migrateDown env src) n w) = ledger w \<and>
            user (repeatedly (migrateDown env src) n w) = user w))"
proof -
  let ?st = "\<lparr>migrations = ms, currentIndex = int k - 1\<rparr>"
  have sel: "selectFails env (trace w) = None" using assms(1) by (simp add: calm_def)
  have 1: "fst (getState env src w) = Inr ?st"
    using getState_position [OF sel assms(2,4,5)] by simp
  have 2: "targetUp ?st = Inr (Some (min (int k - 1 + 1) (int (length ms) - 1)))"
    by (simp add: targetUp_def)
  have 3: "targetDown ?st = Inr (Some (max (int k - 1 - 1) (- 1)))"
    by (simp add: targetDown_def)
  obtain ru wu where opu: "migrate env src targetUp w = (ru, wu)"
    by (cases "migrate env src targetUp w")
  obtain rd wd where opd: "migrate env src targetDown w = (rd, wd)"
    by (cases "migrate env src targetDown w")
  have upB: "ms = [] \<or> targetUp ?st = Inr (Some (int k - 1))" if "k = length ms"
    using that assms(3) by (simp add: targetUp_def min_def)
  have dnB: "ms = [] \<or> targetDown ?st = Inr (Some (int k - 1))" if "k = 0"
    using that by (simp add: targetDown_def max_def)
  have 4: "\<exists>rs. results ru = Some rs \<and>
       map migrationName rs = (if k < length ms then [name (ms ! k)] else []) \<and>
       list_all (\<lambda>p. direction p = Up) rs"
  proof (cases "k < length ms")
    case True
    with migrateUp_calm_step [OF assms(1,2,4) True opu] show ?thesis by simp
  next
    case False
    with assms(5) have "k = length ms" by simp
    from migrate_calm_noop [where gt = targetUp, OF assms(1,2,4,5) upB [OF this] opu] False
    show ?thesis
      by (simp add: noResults_def)
  qed
  have 5: "\<exists>rs. results rd = Some rs \<and>
       map migrationName rs = (if 0 < k then [name (ms ! (k - 1))] else []) \<and>
       list_all (\<lambda>p. direction p = Down) rs"
  proof (cases "0 < k")
    case True
    with migrateDown_calm_step [OF assms(1,2,4,5) True opd] show ?thesis by simp
  next
    case False
    then have "k = 0" by simp
    from migrate_calm_noop [where gt = targetDown, OF assms(1,2,4,5) dnB [OF this] opd] False
    show ?thesis
      by (simp add: noResults_def)
  qed
  have 6: "\<forall>n. fst (migrateUp env src (repeatedly (migrateUp env src) n w)) = noResults \<and>
            ledger (repeatedly (migrateUp env src) n w) = ledger w \<and>
            user (repeatedly (migrateUp env src) n w) = user w" if "k = length ms"
  proof
    fix n
    have "migrateUp env src = migrate env src targetUp" by (rule ext) (simp add: migrateUp_def)
    with repeat_boundary [where gt = targetUp, OF assms(1,2,4,5) upB [OF that], of n]
    show "fst (migrateUp env src (repeatedly (migrateUp env src) n w)) = noResults \<and>
            ledger (repeatedly (migrateUp env src) n w) = ledger w \<and>
            user (repeatedly (migrateUp env src) n w) = user w" by simp
  qed
  have 7: "\<forall>n. fst (migrateDown env src (repeatedly (migrateDown env src) n w)) = noResults \<and>
            ledger (repeatedly (migrateDown env src) n w) = ledger w \<and>
            user (repeatedly (migrateDown env src) n w) = user w" if "k = 0"
  proof
    fix n
    have "migrateDown env src = migrate env src targetDown"
      by (rule ext) (simp add: migrateDown_def)
    with repeat_boundary [where gt = targetDown, OF assms(1,2,4,5) dnB [OF that], of n]
    show "fst (migrateDown env src (repeatedly (migrateDown env src) n w)) = noResults \<and>
            ledger (repeatedly (migrateDown env src) n w) = ledger w \<and>
            user (repeatedly (migrateDown env src) n w) = user w" by simp
  qed
  from 1 2 3 4 5 6 7 opu opd show ?thesis
    by (simp add: migrateUp_def migrateDown_def)
qed

text \<open>
  C5. For every state that \<^verbatim>\<open>#getState\<close> computes over a non-empty resolved migration list,
  the current index lies in \<open>[-1, length - 1]\<close>; \<^verbatim>\<open>migrateUp\<close> targets index
  \<open>min (currentIndex + 1) (length - 1)\<close> and \<^verbatim>\<open>migrateDown\<close> targets index
  \<open>max (currentIndex - 1) (-1)\<close>, so the plan of \<^verbatim>\<open>migrateUp\<close> is the one migration after
  the current one, or nothing at the last index, and the plan of \<^verbatim>\<open>migrateDown\<close> is the
  current migration, or nothing at \<open>-1\<close>. Once a boundary is reached, any number of repeated
  calls of the same operation leave the ledger (and the database) unchanged and each returns an
  empty results list. No collaborator is assumed to fail.
\<close>

theorem C5_one_step_operations_bounded:
  assumes "calm env" and "fst (getState env src w) = Inr st" and "migrations st \<noteq> []"
  shows "- 1 \<le> currentIndex st \<and> currentIndex st \<le> int (length (migrations st)) - 1 \<and>
    targetUp st =
      Inr (Some (min (currentIndex st + 1) (int (length (migrations st)) - 1))) \<and>
    targetDown st = Inr (Some (max (currentIndex st - 1) (- 1))) \<and>
    (\<exists>rs. results (fst (migrateUp env src w)) = Some rs \<and>
       map migrationName rs =
         (if currentIndex st < int (length (migrations st)) - 1
          then [name (migrations st ! nat (currentIndex st + 1))] else []) \<and>
       list_all (\<lambda>p. direction p = Up) rs) \<and>
    (\<exists>rs. results (fst (migrateDown env src w)) = Some rs \<and>
       map migrationName rs =
         (if 0 \<le> currentIndex st then [name (migrations st ! nat (currentIndex st))] else []) \<and>
       list_all (\<lambda>p. direction p = Down) rs) \<and>
    (currentIndex st = int (length (migrations st)) - 1 \<longrightarrow>
       (\<forall>n. fst (migrateUp env src (repeatedly (migrateUp env src) n w)) = noResults \<and>
            ledger (repeatedly (migrateUp env src) n w) = ledger w \<and>
            user (repeatedly (migrateUp env src) n w) = user w)) \<and>
    (currentIndex st = - 1 \<longrightarrow>
       (\<forall>n. fst (migrateDown env src (repeatedly (migrateDown env src) n w)) = noResults \<and>
            ledger (repeatedly (migrateDown env src) n w) = ledger w \<and>
            user (repeatedly (migrateDown env src) n w) = user w))"
proof -
  let ?ms = "migrations st"
  obtain v1 where gs: "getState env src w = (Inr st, v1)"
    using assms(2) by (cases "getState env src w") simp
  from gs obtain k where k: "k \<le> length ?ms"
    "sort_key (collation env) (map fst (ledger w)) = take k (map name ?ms)"
    "currentIndex st = int k - 1"
    by (rule getState_Inr_position)
  note b = one_step_bounded [OF assms(1) getState_Inr(1) [OF gs] assms(3) k(2) k(1)]
  note b4 = b [THEN conjunct2, THEN conjunct2, THEN conjunct2, THEN conjunct1]
  note b5 = b [THEN conjunct2, THEN conjunct2, THEN conjunct2, THEN conjunct2, THEN conjunct1]
  note b6 = b [THEN conjunct2, THEN conjunct2, THEN conjunct2, THEN conjunct2, THEN conjunct2,
      THEN conjunct1]
  note b7 = b [THEN conjunct2, THEN conjunct2, THEN conjunct2, THEN conjunct2, THEN conjunct2,
      THEN conjunct2]
  have e1: "(if currentIndex st < int (length ?ms) - 1
             then [name (?ms ! nat (currentIndex st + 1))] else []) =
            (if k < length ?ms then [name (?ms ! k)] else [])"
    and e2: "(if 0 \<le> currentIndex st then [name (?ms ! nat (currentIndex st))] else []) =
             (if 0 < k then [name (?ms ! (k - 1))] else [])"
    and c3: "currentIndex st = int (length ?ms) - 1 \<longleftrightarrow> k = length ?ms"
    and c4: "currentIndex st = - 1 \<longleftrightarrow> k = 0"
    using k(1,3) by (auto simp: nat_diff_distrib)
  have 0: "- 1 \<le> currentIndex st" "currentIndex st \<le> int (length ?ms) - 1"
    using k(1,3) by simp_all
  have 2: "targetUp st =
      Inr (Some (min (currentIndex st + 1) (int (length ?ms) - 1)))"
    and 3: "targetDown st = Inr (Some (max (currentIndex st - 1) (- 1)))"
    by (simp_all add: targetUp_def targetDown_def)
  have 4: "\<exists>rs. results (fst (migrateUp env src w)) = Some rs \<and>
       map migrationName rs =
         (if currentIndex st < int (length ?ms) - 1
          then [name (?ms ! nat (currentIndex st + 1))] else []) \<and>
       list_all (\<lambda>p. direction p = Up) rs"
    unfolding e1 by (rule b4)
  have 5: "\<exists>rs. results (fst (migrateDown env src w)) = Some rs \<and>
       map migrationName rs =
         (if 0 \<le> currentIndex st then [name (?ms ! nat (currentIndex st))] else []) \<and>
       list_all (\<lambda>p. direction p = Down) rs"
    unfolding e2 by (rule b5)
  have 6: "currentIndex st = int (length ?ms) - 1 \<longrightarrow>
       (\<forall>n. fst (migrateUp env src (repeatedly (migrateUp env src) n w)) = noResults \<and>
            ledger (repeatedly (migrateUp env src) n w) = ledger w \<and>
            user (repeatedly (migrateUp env src) n w) = user w)"
    unfolding c3 by (rule b6)
  have 7: "currentIndex st = - 1 \<longrightarrow>
       (\<forall>n. fst (migrateDown env src (repeatedly (migrateDown env src) n w)) = noResults \<and>
            ledger (repeatedly (migrateDown env src) n w) = ledger w \<and>
            user (repeatedly (migrateDown env src) n w) = user w)"
    unfolding c4 by (rule b7)
  from 0 2 3 4 5 6 7 show ?thesis by (simp only: simp_thms)
qed

theorem C5_one_step_operations_bounded_witness:
  "fst (migrateUp (calmEnv False) ac (repeatedly (migrateUp (calmEnv False) ac) 3 migratedAC)) =
     noResults \<and>
   ledger (repeatedly (migrateUp (calmEnv False) ac) 3 migratedAC) = ledger migratedAC \<and>
   (\<exists>rs. results (fst (migrateDown (calmEnv False) ac migratedAC)) = Some rs \<and>
      map migrationName rs = [''c''] \<and> list_all (\<lambda>p. direction p = Down) rs) \<and>
   fst (migrateDown (calmEnv False) ac (repeatedly (migrateDown (calmEnv False) ac) 3 fresh)) =
     noResults \<and>
   (\<exists>rs. results (fst (migrateUp (calmEnv False) ac fresh)) = Some rs \<and>
      map migrationName rs = [''a''] \<and> list_all (\<lambda>p. direction p = Up) rs)"
proof -
  from resolve_ac [of False] obtain M where M: "resolveMigrations (calmEnv False) ac = Inr M"
    "map name M = [''a'', ''c'']"
    by (elim exE conjE) (rule that)
  have "length (map name M) = 2" unfolding M(2) by simp
  then have len: "length M = 2" by simp
  have ne: "M \<noteq> []" using len by auto
  have "map name M ! 0 = ''a''" "map name M ! 1 = ''c''" unfolding M(2) by simp_all
  then have nm: "name (M ! 0) = ''a''" "name (M ! Suc 0) = ''c''" using len by simp_all
  have c: "calm (calmEnv False :: string list env)" by simp
  have col: "collation (calmEnv False :: string list env) = (\<lambda>n. n)"
    and sel: "\<And>t. selectFails (calmEnv False :: string list env) t = None"
    by (simp_all add: calmEnv_def)
  have tk2: "sort_key (collation (calmEnv False :: string list env))
        (map fst (ledger migratedAC)) = take 2 (map name M)"
    by (simp add: M(2) migratedAC_def col)
  have tk0: "sort_key (collation (calmEnv False :: string list env))
        (map fst (ledger fresh)) = take 0 (map name M)"
    by (simp add: fresh_def)
  have le2: "2 \<le> length M" and le0: "0 \<le> length M" using len by simp_all
  have gs2: "fst (getState (calmEnv False) ac migratedAC) =
      Inr \<lparr>migrations = M, currentIndex = 1\<rparr>"
    using getState_position [OF sel M(1) tk2 le2] by simp
  have gs0: "fst (getState (calmEnv False) ac fresh) =
      Inr \<lparr>migrations = M, currentIndex = - 1\<rparr>"
    using getState_position [OF sel M(1) tk0 le0] by simp
  have ne': "migrations \<lparr>migrations = M, currentIndex = 1\<rparr> \<noteq> []"
    "migrations \<lparr>migrations = M, currentIndex = - 1\<rparr> \<noteq> []" using ne by simp_all
  note top = C5_one_step_operations_bounded [OF c gs2 ne'(1)]
  note bot = C5_one_step_operations_bounded [OF c gs0 ne'(2)]
  from top len nm have 1:
    "fst (migrateUp (calmEnv False) ac (repeatedly (migrateUp (calmEnv False) ac) 3 migratedAC)) =
       noResults"
    "ledger (repeatedly (migrateUp (calmEnv False) ac) 3 migratedAC) = ledger migratedAC"
    "\<exists>rs. results (fst (migrateDown (calmEnv False) ac migratedAC)) = Some rs \<and>
      map migrationName rs = [''c''] \<and> list_all (\<lambda>p. direction p = Down) rs"
    by simp_all
  from bot len nm have 2:
    "fst (migrateDown (calmEnv False) ac (repeatedly (migrateDown (calmEnv False) ac) 3 fresh)) =
       noResults"
    "\<exists>rs. results (fst (migrateUp (calmEnv False) ac fresh)) = Some rs \<and>
      map migrationName rs = [''a''] \<and> list_all (\<lambda>p. direction p = Up) rs"
    by simp_all
  from 1 2 show ?thesis by simp
qed

subsection \<open>Skipping a migration on the way down\<close>

text \<open>
  C6. For every migration in the range of a down run that has no backward action defined,
  that step's result keeps status NotExecuted with direction Down (it is the only entry of
  that name, so no error is reported for it), no action of it is called and its ledger record
  is neither deleted nor touched; and a down run over migrations none of which has a backward
  action returns the pre-populated list without error and changes nothing. The range is that
  of \<^verbatim>\<open>#migrateDown\<close>: the indices from \<open>currentIndex\<close> down to \<open>targetIndex + 1\<close>, in a
  state whose names are distinct.
\<close>

theorem C6_no_backward_action_is_skipped:
  assumes "distinct (map name (migrations st))" and "- 1 \<le> t"
    and "currentIndex st < int (length (migrations st))"
  shows "(m \<in> set (drop (nat (t + 1)) (take (nat (currentIndex st + 1)) (migrations st))) \<and>
          down m = None \<longrightarrow>
            (\<exists>rs. results (settle (fst (migrateDown_private env st t w))) = Some rs \<and>
               \<lparr>migrationName = name m, direction = Down, status = NotExecuted\<rparr> \<in> set rs \<and>
               (\<forall>p \<in> set rs. migrationName p = name m \<longrightarrow>
                  p = \<lparr>migrationName = name m, direction = Down, status = NotExecuted\<rparr>)) \<and>
            list_all (\<lambda>ev. \<not> touches (name m) ev)
              (since w (snd (migrateDown_private env st t w))) \<and>
            (\<forall>row \<in> set (ledger w). fst row = name m \<longrightarrow>
               row \<in> set (ledger (snd (migrateDown_private env st t w))))) \<and>
         ((\<forall>m \<in> set (drop (nat (t + 1)) (take (nat (currentIndex st + 1)) (migrations st))).
             down m = None) \<longrightarrow>
            fst (migrateDown_private env st t w) =
              Inr \<lparr>error = None,
                   results = Some (map (\<lambda>m. \<lparr>migrationName = name m, direction = Down,
                                               status = NotExecuted\<rparr>)
                     (rev (drop (nat (t + 1)) (take (nat (currentIndex st + 1)) (migrations st)))))\<rparr> \<and>
            ledger (snd (migrateDown_private env st t w)) = ledger w \<and>
            user (snd (migrateDown_private env st t w)) = user w \<and>
            trace (snd (migrateDown_private env st t w)) = trace w)"
proof (intro conjI impI)
  assume a: "m \<in> set (drop (nat (t + 1)) (take (nat (currentIndex st + 1)) (migrations st))) \<and>
          down m = None"
  obtain x w' where run: "migrateDown_private env st t w = (x, w')"
    by (cases "migrateDown_private env st t w")
  from a have mem: "m \<in> set (drop (nat (t + 1)) (take (nat (currentIndex st + 1)) (migrations st)))"
    and nd: "down m = None" by simp_all
  note s = migrateDown_private_skips [OF assms mem nd run]
  from s run show "\<exists>rs. results (settle (fst (migrateDown_private env st t w))) = Some rs \<and>
               \<lparr>migrationName = name m, direction = Down, status = NotExecuted\<rparr> \<in> set rs \<and>
               (\<forall>p \<in> set rs. migrationName p = name m \<longrightarrow>
                  p = \<lparr>migrationName = name m, direction = Down, status = NotExecuted\<rparr>)"
    by (simp add: planned_def)
  from s run show "list_all (\<lambda>ev. \<not> touches (name m) ev)
              (since w (snd (migrateDown_private env st t w)))" by simp
  from s run show "\<forall>row \<in> set (ledger w). fst row = name m \<longrightarrow>
               row \<in> set (ledger (snd (migrateDown_private env st t w)))" by simp
next
  assume all: "\<forall>m \<in> set (drop (nat (t + 1)) (take (nat (currentIndex st + 1)) (migrations st))).
             down m = None"
  note s = migrateDown_private_all_skipped [OF assms(2,3,1) all, of env w]
  have p: "planned Down = (\<lambda>m. \<lparr>migrationName = name m, direction = Down,
                                               status = NotExecuted\<rparr>)"
    by (rule ext) (simp add: planned_def)
  from s show "fst (migrateDown_private env st t w) =
              Inr \<lparr>error = None,
                   results = Some (map (\<lambda>m. \<lparr>migrationName = name m, direction = Down,
                                               status = NotExecuted\<rparr>)
                     (rev (drop (nat (t + 1)) (take (nat (currentIndex st + 1)) (migrations st)))))\<rparr>"
    unfolding p by simp
  from s show "ledger (snd (migrateDown_private env st t w)) = ledger w" by simp
  from s show "user (snd (migrateDown_private env st t w)) = user w" by simp
  from s show "trace (snd (migrateDown_private env st t w)) = trace w" by simp
qed

theorem C6_no_backward_action_is_skipped_witness:
  "results (settle (fst (migrateDown_private (calmEnv False)
       \<lparr>migrations = [aM, bM, cM], currentIndex = 2\<rparr> (- 1) migratedABC))) =
     Some [\<lparr>migrationName = ''c'', direction = Down, status = Success\<rparr>,
           \<lparr>migrationName = ''b'', direction = Down, status = NotExecuted\<rparr>,
           \<lparr>migrationName = ''a'', direction = Down, status = Success\<rparr>] \<and>
   list_all (\<lambda>ev. \<not> touches ''b'' ev)
     (since migratedABC (snd (migrateDown_private (calmEnv False)
        \<lparr>migrations = [aM, bM, cM], currentIndex = 2\<rparr> (- 1) migratedABC))) \<and>
   (''b'', ''2021-12-31T00:00:01.000Z'') \<in>
     set (ledger (snd (migrateDown_private (calmEnv False)
        \<lparr>migrations = [aM, bM, cM], currentIndex = 2\<rparr> (- 1) migratedABC))) \<and>
   fst (migrateDown_private (calmEnv False)
       \<lparr>migrations = [aM, bM, cM], currentIndex = 1\<rparr> 0 migratedABC) =
     Inr \<lparr>error = None,
          results = Some [\<lparr>migrationName = ''b'', direction = Down, status = NotExecuted\<rparr>]\<rparr>"
proof -
  let ?st2 = "\<lparr>migrations = [aM, bM, cM], currentIndex = 2\<rparr>"
  let ?st1 = "\<lparr>migrations = [aM, bM, cM], currentIndex = 1\<rparr>"
  have nm: "name aM = ''a''" "name bM = ''b''" "name cM = ''c''" "down bM = None"
    by (simp_all add: aM_def bM_def cM_def)
  have d2: "distinct (map name (migrations ?st2))" and d1: "distinct (map name (migrations ?st1))"
    by (simp_all add: nm)
  have r2: "currentIndex ?st2 < int (length (migrations ?st2))"
    and r1: "currentIndex ?st1 < int (length (migrations ?st1))" by simp_all
  have mem: "bM \<in> set (drop (nat (- 1 + 1)) (take (nat (currentIndex ?st2 + 1)) (migrations ?st2)))"
    by simp
  have all: "\<forall>m \<in> set (drop (nat (0 + 1)) (take (nat (currentIndex ?st1 + 1)) (migrations ?st1))).
      down m = None" by (simp add: nm)
  have row: "(''b'', ''2021-12-31T00:00:01.000Z'') \<in> set (ledger migratedABC)"
    by (simp add: migratedABC_def)
  have res: "results (settle (fst (migrateDown_private (calmEnv False) ?st2 (- 1) migratedABC))) =
     Some [\<lparr>migrationName = ''c'', direction = Down, status = Success\<rparr>,
           \<lparr>migrationName = ''b'', direction = Down, status = NotExecuted\<rparr>,
           \<lparr>migrationName = ''a'', direction = Down, status = Success\<rparr>]"
    by code_simp
  note i2 = C6_no_backward_action_is_skipped
      [OF d2 _ r2, of "- 1" bM "calmEnv False" migratedABC]
  note i1 = C6_no_backward_action_is_skipped
      [OF d1 _ r1, of 0 bM "calmEnv False" migratedABC]
  from i2 mem nm have a: "list_all (\<lambda>ev. \<not> touches ''b'' ev)
     (since migratedABC (snd (migrateDown_private (calmEnv False) ?st2 (- 1) migratedABC)))"
    and b: "\<forall>row \<in> set (ledger migratedABC). fst row = ''b'' \<longrightarrow>
       row \<in> set (ledger (snd (migrateDown_private (calmEnv False) ?st2 (- 1) migratedABC)))"
    by simp_all
  from b row have b': "(''b'', ''2021-12-31T00:00:01.000Z'') \<in>
     set (ledger (snd (migrateDown_private (calmEnv False) ?st2 (- 1) migratedABC)))"
    by auto
  from i1 all nm have c: "fst (migrateDown_private (calmEnv False) ?st1 0 migratedABC) =
     Inr \<lparr>error = None,
          results = Some [\<lparr>migrationName = ''b'', direction = Down, status = NotExecuted\<rparr>]\<rparr>"
    by simp
  from res a b' c show ?thesis by (simp only: simp_thms)
qed

subsection \<open>No-op and idempotence\<close>

text \<open>
  C7, as amended. For every state where the computed target index equals \<open>currentIndex\<close>,
  the operation performs no up or down actions and returns \<open>{results: []}\<close>, an empty list
  and not an error: so for the locked scope once the lock is held, and so for every public
  operation when no collaborator fails. In particular, invoking \<^verbatim>\<open>migrateToLatest\<close> twice in a
  row with no migrations added between the calls yields an empty results list on the second
  call, provided the first call completed without error and the database orders the names of
  the migrations as \<^verbatim>\<open>Array.prototype.sort\<close> does.
\<close>

theorem C7_no_op_when_target_is_current:
  "(acquireMigrationLock env (trace v) = None \<and>
    getState env src (emit (AcquireLock h) v) = (Inr st, v1) \<and>
    gt st = Inr (Some (currentIndex st)) \<longrightarrow>
      fst (run_try env src gt h v) = Inr noResults \<and>
      ledger (snd (run_try env src gt h v)) = ledger v \<and>
      user (snd (run_try env src gt h v)) = user v \<and>
      list_all (\<lambda>e. kind e \<noteq> Step) (since v (snd (run_try env src gt h v)))) \<and>
   (calm env \<and> getState env src w = (Inr st, w1) \<and>
    targetOf m st = Inr (Some (currentIndex st)) \<longrightarrow>
      fst (operate env m src w) = noResults \<and>
      ledger (snd (operate env m src w)) = ledger w \<and>
      user (snd (operate env m src w)) = user w \<and>
      list_all (\<lambda>e. kind e \<noteq> Step) (since w (snd (operate env m src w)))) \<and>
   (calm env \<and> error (fst (migrateToLatest env src w)) = None \<and>
    resolveMigrations env src = Inr ms \<and> agrees env (map name ms) \<longrightarrow>
      fst (migrateToLatest env src (snd (migrateToLatest env src w))) = noResults \<and>
      ledger (snd (migrateToLatest env src (snd (migrateToLatest env src w)))) =
        ledger (snd (migrateToLatest env src w)) \<and>
      user (snd (migrateToLatest env src (snd (migrateToLatest env src w)))) =
        user (snd (migrateToLatest env src w)) \<and>
      list_all (\<lambda>e. kind e \<noteq> Step)
        (since (snd (migrateToLatest env src w))
           (snd (migrateToLatest env src (snd (migrateToLatest env src w))))))"
proof (intro conjI impI)
  assume a: "acquireMigrationLock env (trace v) = None \<and>
    getState env src (emit (AcquireLock h) v) = (Inr st, v1) \<and>
    gt st = Inr (Some (currentIndex st))"
  then have a1: "acquireMigrationLock env (trace v) = None"
    and a2: "getState env src (emit (AcquireLock h) v) = (Inr st, v1)"
    and a3: "gt st = Inr (Some (currentIndex st))" by simp_all
  note n = run_try_noop [where gt = gt, OF a1 a2 a3]
  show "fst (run_try env src gt h v) = Inr noResults" by (rule n(1))
  show "ledger (snd (run_try env src gt h v)) = ledger v" by (rule n(2))
  show "user (snd (run_try env src gt h v)) = user v" by (rule n(3))
  show "list_all (\<lambda>e. kind e \<noteq> Step) (since v (snd (run_try env src gt h v)))" by (rule n(4))
next
  assume b: "calm env \<and> getState env src w = (Inr st, w1) \<and>
    targetOf m st = Inr (Some (currentIndex st))"
  then have c: "calm env" and gs: "getState env src w = (Inr st, w1)"
    and tg: "targetOf m st = Inr (Some (currentIndex st))" by simp_all
  from gs obtain k where k: "k \<le> length (migrations st)"
    "sort_key (collation env) (map fst (ledger w)) = take k (map name (migrations st))"
    "currentIndex st = int k - 1"
    by (rule getState_Inr_position)
  have st: "st = \<lparr>migrations = migrations st, currentIndex = int k - 1\<rparr>"
    using k(3) by simp
  obtain r w' where op: "migrate env src (targetOf m) w = (r, w')"
    by (cases "migrate env src (targetOf m) w")
  have "migrations st = [] \<or>
      targetOf m \<lparr>migrations = migrations st, currentIndex = int k - 1\<rparr> = Inr (Some (int k - 1))"
    using tg st k(3) by metis
  from migrate_calm_noop [OF c getState_Inr(1) [OF gs] k(2) k(1) this op] op
  have *: "fst (operate env m src w) = noResults \<and>
      ledger (snd (operate env m src w)) = ledger w \<and>
      user (snd (operate env m src w)) = user w \<and>
      list_all (\<lambda>e. kind e \<noteq> Step) (since w (snd (operate env m src w)))"
    by (simp add: operate_migrate)
  from * show "fst (operate env m src w) = noResults" by simp
  from * show "ledger (snd (operate env m src w)) = ledger w" by simp
  from * show "user (snd (operate env m src w)) = user w" by simp
  from * show "list_all (\<lambda>e. kind e \<noteq> Step) (since w (snd (operate env m src w)))" by simp
next
  assume d: "calm env \<and> error (fst (migrateToLatest env src w)) = None \<and>
    resolveMigrations env src = Inr ms \<and> agrees env (map name ms)"
  then have c: "calm env" and rs: "resolveMigrations env src = Inr ms"
    and ag: "agrees env (map name ms)" by simp_all
  obtain r w' where op: "migrate env src targetLatest w = (r, w')"
    by (cases "migrate env src targetLatest w")
  with d have "error r = None" by (simp add: migrateToLatest_def)
  from latest_completes_ledger [OF c op this rs ag] rs have
    ms: "resolveMigrations env src = Inr ms"
      "sort_key (collation env) (map fst (ledger w')) = map name ms"
    by simp_all
  obtain r2 w2 where op2: "migrate env src targetLatest w' = (r2, w2)"
    by (cases "migrate env src targetLatest w'")
  have tk: "sort_key (collation env) (map fst (ledger w')) = take (length ms) (map name ms)"
    using ms(2) by simp
  have tl: "ms = [] \<or>
      targetLatest \<lparr>migrations = ms, currentIndex = int (length ms) - 1\<rparr> =
        Inr (Some (int (length ms) - 1))"
    by (simp add: targetLatest_def)
  have "r2 = noResults \<and> ledger w2 = ledger w' \<and> user w2 = user w' \<and>
      trace w2 = trace w' @ since w' w2 \<and> list_all (\<lambda>e. kind e \<noteq> Step) (since w' w2)"
    by (rule migrate_calm_noop [OF c ms(1) tk order_refl tl op2])
  with op op2 have *: "fst (migrateToLatest env src (snd (migrateToLatest env src w))) = noResults \<and>
      ledger (snd (migrateToLatest env src (snd (migrateToLatest env src w)))) =
        ledger (snd (migrateToLatest env src w)) \<and>
      user (snd (migrateToLatest env src (snd (migrateToLatest env src w)))) =
        user (snd (migrateToLatest env src w)) \<and>
      list_all (\<lambda>e. kind e \<noteq> Step)
        (since (snd (migrateToLatest env src w))
           (snd (migrateToLatest env src (snd (migrateToLatest env src w)))))"
    by (simp add: migrateToLatest_def)
  from * show "fst (migrateToLatest env src (snd (migrateToLatest env src w))) = noResults"
    by simp
  from * show "ledger (snd (migrateToLatest env src (snd (migrateToLatest env src w)))) =
        ledger (snd (migrateToLatest env src w))" by simp
  from * show "user (snd (migrateToLatest env src (snd (migrateToLatest env src w)))) =
        user (snd (migrateToLatest env src w))" by simp
  from * show "list_all (\<lambda>e. kind e \<noteq> Step)
        (since (snd (migrateToLatest env src w))
           (snd (migrateToLatest env src (snd (migrateToLatest env src w)))))" by simp
qed


theorem C7_no_op_when_target_is_current_witness:
  "fst (run_try (calmEnv False) ac targetLatest Connection migratedAC) = Inr noResults \<and>
   fst (operate (calmEnv False) ToLatest ac migratedAC) = noResults \<and>
   ledger (snd (operate (calmEnv False) ToLatest ac migratedAC)) = ledger migratedAC \<and>
   error (fst (migrateToLatest (calmEnv False) ac fresh)) = None \<and>
   fst (migrateToLatest (calmEnv False) ac (snd (migrateToLatest (calmEnv False) ac fresh))) =
     noResults"
proof -
  from resolve_ac [of False] obtain M where M: "resolveMigrations (calmEnv False) ac = Inr M"
    "map name M = [''a'', ''c'']"
    by (elim exE conjE) (rule that)
  have "length (map name M) = 2" unfolding M(2) by simp
  then have len: "length M = 2" by simp
  have sel: "\<And>t. selectFails (calmEnv False :: string list env) t = None"
    by (simp add: calmEnv_def)
  have acq: "acquireMigrationLock (calmEnv False :: string list env) (trace migratedAC) = None"
    by (simp add: calmEnv_def)
  have col: "collation (calmEnv False :: string list env) = (\<lambda>n. n)"
    by (simp add: calmEnv_def)
  have tk1: "sort_key (collation (calmEnv False :: string list env))
        (map fst (ledger (emit (AcquireLock Connection) migratedAC))) =
      take 2 (map name M)" by (simp add: M(2) migratedAC_def col)
  have tk2: "sort_key (collation (calmEnv False :: string list env))
        (map fst (ledger migratedAC)) = take 2 (map name M)"
    by (simp add: M(2) migratedAC_def col)
  have ag: "agrees (calmEnv False :: string list env) (map name M)"
    by (simp add: agrees_def col)
  have le: "2 \<le> length M" using len by simp
  have gs1: "getState (calmEnv False) ac (emit (AcquireLock Connection) migratedAC) =
      (Inr \<lparr>migrations = M, currentIndex = 1\<rparr>,
       emit SelectLedger (emit (AcquireLock Connection) migratedAC))"
    using getState_position [OF sel M(1) tk1 le] by simp
  have gs2: "getState (calmEnv False) ac migratedAC =
      (Inr \<lparr>migrations = M, currentIndex = 1\<rparr>, emit SelectLedger migratedAC)"
    using getState_position [OF sel M(1) tk2 le] by simp
  have t1: "targetLatest \<lparr>migrations = M, currentIndex = 1\<rparr> =
      Inr (Some (currentIndex \<lparr>migrations = M, currentIndex = 1\<rparr>))"
    by (simp add: targetLatest_def len)
  have t2: "targetOf ToLatest \<lparr>migrations = M, currentIndex = 1\<rparr> =
      Inr (Some (currentIndex \<lparr>migrations = M, currentIndex = 1\<rparr>))"
    by (simp add: targetOf_def targetLatest_def len)
  have e: "error (fst (migrateToLatest (calmEnv False) ac fresh)) = None"
    by code_simp
  note i1 = C7_no_op_when_target_is_current
         [where env = "calmEnv False" and v = migratedAC and src = ac and h = Connection
            and st = "\<lparr>migrations = M, currentIndex = 1\<rparr>"
            and ?v1.0 = "emit SelectLedger (emit (AcquireLock Connection) migratedAC)"
            and gt = targetLatest and w = migratedAC
            and ?w1.0 = "emit SelectLedger migratedAC" and m = ToLatest and ms = M]
  note i2 = C7_no_op_when_target_is_current
         [where env = "calmEnv False" and v = migratedAC and src = ac and h = Connection
            and st = "\<lparr>migrations = M, currentIndex = 1\<rparr>"
            and ?v1.0 = "emit SelectLedger (emit (AcquireLock Connection) migratedAC)"
            and gt = targetLatest and w = fresh
            and ?w1.0 = "emit SelectLedger migratedAC" and m = ToLatest and ms = M]
  from i1 acq gs1 t1 have 1:
    "fst (run_try (calmEnv False) ac targetLatest Connection migratedAC) = Inr noResults"
    by simp
  from i1 gs2 t2 have 2: "fst (operate (calmEnv False) ToLatest ac migratedAC) = noResults"
    "ledger (snd (operate (calmEnv False) ToLatest ac migratedAC)) = ledger migratedAC"
    by simp_all
  from i2 e M(1) ag have 3:
    "fst (migrateToLatest (calmEnv False) ac (snd (migrateToLatest (calmEnv False) ac fresh))) =
       noResults"
    by simp
  from 1 2 3 e show ?thesis by simp
qed

text \<open>
  Without the provisos the second part fails. After a first call that stopped at the failing
  migration \<open>b\<close>, the second call plans \<open>b\<close> and \<open>c\<close> again. And on a database whose collation
  ignores case, after a first call that executed \<open>B\<close> and \<open>a\<close> without error, the second call
  reads the ledger in the order \<open>a\<close>, \<open>B\<close> and reports corrupted migrations.
\<close>

theorem C7_counterexample:
  "results (fst (migrateToLatest (calmEnv False) abc
      (snd (migrateToLatest (calmEnv False) abc fresh)))) \<noteq> Some [] \<and>
   error (fst (migrateToLatest noCase aB fresh)) = None \<and>
   results (fst (migrateToLatest noCase aB
      (snd (migrateToLatest noCase aB fresh)))) \<noteq> Some []"
  by code_simp

subsection \<open>The empty list and the target\<close>

text \<open>
  C9, as amended. For every operation mode and every target argument, when the resolved
  migration list is empty the target-selection function is never called, so no
  unresolved-name or other target error can be produced, no step runs and the ledger and the
  database stay as they were. What is returned depends on the ledger, which is checked first:
  with no collaborator failing, an empty ledger gives \<open>{results: []}\<close>, and a ledger holding
  any record gives the corruption error for its first record (in the order the database
  returns them), without results.
\<close>

theorem C9_empty_list_skips_target_resolution:
  assumes "resolveMigrations env src = Inr []"
  shows "GetTarget \<notin> set (since w (snd (operate env m src w))) \<and>
         list_all (\<lambda>e. kind e \<noteq> Step) (since w (snd (operate env m src w))) \<and>
         trace (snd (operate env m src w)) = trace w @ since w (snd (operate env m src w)) \<and>
         ledger (snd (operate env m src w)) = ledger w \<and>
         user (snd (operate env m src w)) = user w \<and>
         (calm env \<longrightarrow>
            fst (operate env m src w) =
              (if ledger w = [] then noResults
               else \<lparr>error = Some (CorruptedMissing
                                     (hd (sort_key (collation env) (map fst (ledger w))))),
                     results = None\<rparr>))"
proof -
  obtain r w' where op: "migrate env src (targetOf m) w = (r, w')"
    by (cases "migrate env src (targetOf m) w")
  from migrate_empty [OF assms op] op show ?thesis by (simp add: operate_migrate)
qed


theorem C9_empty_list_skips_target_resolution_witness:
  "GetTarget \<notin> set (since fresh (snd (operate (calmEnv False) (To (Name ''x'')) noSource fresh))) \<and>
   fst (operate (calmEnv False) (To (Name ''x'')) noSource fresh) = noResults \<and>
   fst (operate (calmEnv False) (To (Name ''x'')) noSource onlyB) =
     \<lparr>error = Some (CorruptedMissing ''b''), results = None\<rparr>"
proof -
  have 1: "sort_key (collation (calmEnv False :: string list env)) (map fst (ledger onlyB)) =
      [''b'']" by (simp add: onlyB_def)
  have 2: "ledger onlyB \<noteq> []" "ledger fresh = []" by (simp_all add: onlyB_def fresh_def)
  from C9_empty_list_skips_target_resolution
         [OF resolve_noSource [of False], of fresh "To (Name ''x'')"]
       C9_empty_list_skips_target_resolution
         [OF resolve_noSource [of False], of onlyB "To (Name ''x'')"] 1 2
  show ?thesis by simp
qed

text \<open>
  The claim as stated fails on a ledger that holds a record: with an empty resolved list the
  operation reports the corruption instead of returning an empty result list.
\<close>

theorem C9_counterexample:
  "fst (operate (calmEnv False) StepUp noSource onlyB) \<noteq> noResults"
  by code_simp

end
